theory Spec2Isabelle
  imports Main
begin

section \<open>JavaScript strings and the built-ins the extension calls\<close>

text \<open>
  A JavaScript string is represented by the bytes of its UTF-8 encoding, as a
  \<^typ>\<open>string\<close>.  Every index the scripts compute is the position of an ASCII colon
  and every search is for a whole term, so cutting and searching agree with the UTF-16 view of
  the host on well-formed text.
\<close>

text \<open>
  The regular expressions with the flag \<open>i\<close> (without \<open>u\<close>) of the link
  parser spell their letters in ASCII, and the keywords of the \<open>type\<close> attribute
  are matched without regard to ASCII case: for both, \<open>asciiLower\<close> maps \<open>A-Z\<close>
  to \<open>a-z\<close> and leaves every other byte as it is.
\<close>

definition lowerChar :: "char \<Rightarrow> char" where
  "lowerChar c =
     (case map_of (zip ''ABCDEFGHIJKLMNOPQRSTUVWXYZ'' ''abcdefghijklmnopqrstuvwxyz'') c of
        Some l \<Rightarrow> l
      | None \<Rightarrow> c)"

definition asciiLower :: "string \<Rightarrow> string" where
  "asciiLower s = map lowerChar s"

text \<open>
  \<open>String.prototype.toLowerCase\<close> follows the case mapping of the Unicode Character
  Database, over every script and with its special cases.  That table belongs to the host and
  not to the repository, so the function is a parameter of everything that calls it, like
  the \<open>URL\<close> class below: what is proved of the content scripts holds for every
  lower-casing, the one of the host among them.
\<close>

type_synonym lower_case = "string \<Rightarrow> string"

fun startsWith :: "string \<Rightarrow> string \<Rightarrow> bool" where
  "startsWith s [] = True"
| "startsWith [] (t # ts) = False"
| "startsWith (c # cs) (t # ts) = (c = t \<and> startsWith cs ts)"

fun includes_js :: "string \<Rightarrow> string \<Rightarrow> bool" where
  "includes_js [] t = (t = [])"
| "includes_js (c # cs) t = (startsWith (c # cs) t \<or> includes_js cs t)"

text \<open>
  \<open>String.prototype.trim\<close> removes white space and line terminators from both ends:
  U+0009 to U+000D, U+0020, U+00A0, U+1680, U+2000 to U+200A, U+2028, U+2029, U+202F,
  U+205F, U+3000 and U+FEFF, listed here by their UTF-8 bytes.
\<close>

definition whiteSpace :: "string list" where
  "whiteSpace =
     [[CHR 0x09], [CHR 0x0A], [CHR 0x0B], [CHR 0x0C], [CHR 0x0D], [CHR 0x20],
      [CHR 0xC2, CHR 0xA0], [CHR 0xE1, CHR 0x9A, CHR 0x80],
      [CHR 0xE2, CHR 0x80, CHR 0x80], [CHR 0xE2, CHR 0x80, CHR 0x81],
      [CHR 0xE2, CHR 0x80, CHR 0x82], [CHR 0xE2, CHR 0x80, CHR 0x83],
      [CHR 0xE2, CHR 0x80, CHR 0x84], [CHR 0xE2, CHR 0x80, CHR 0x85],
      [CHR 0xE2, CHR 0x80, CHR 0x86], [CHR 0xE2, CHR 0x80, CHR 0x87],
      [CHR 0xE2, CHR 0x80, CHR 0x88], [CHR 0xE2, CHR 0x80, CHR 0x89],
      [CHR 0xE2, CHR 0x80, CHR 0x8A], [CHR 0xE2, CHR 0x80, CHR 0xA8],
      [CHR 0xE2, CHR 0x80, CHR 0xA9], [CHR 0xE2, CHR 0x80, CHR 0xAF],
      [CHR 0xE2, CHR 0x81, CHR 0x9F], [CHR 0xE3, CHR 0x80, CHR 0x80],
      [CHR 0xEF, CHR 0xBB, CHR 0xBF]]"

definition leading :: "string list \<Rightarrow> string \<Rightarrow> string option" where
  "leading ws s = List.find (\<lambda>w. w \<noteq> [] \<and> startsWith s w) ws"

function stripLeading :: "string list \<Rightarrow> string \<Rightarrow> string" where
  "stripLeading ws s =
     (case leading ws s of
        None \<Rightarrow> s
      | Some w \<Rightarrow> stripLeading ws (drop (length w) s))"
  by pat_completeness auto
termination
proof (relation "measure (\<lambda>(ws, s). length s)")
  show "wf (measure (\<lambda>(ws :: string list, s :: string). length s))"
    by simp
next
  fix ws :: "string list" and s w :: string
  assume "leading ws s = Some w"
  then have "w \<noteq> []" and "startsWith s w"
    by (auto simp: leading_def find_Some_iff)
  then have "s \<noteq> []"
    by (cases s; cases w) auto
  with \<open>w \<noteq> []\<close> show "((ws, drop (length w) s), (ws, s)) \<in> measure (\<lambda>(ws, s). length s)"
    by simp
qed

declare stripLeading.simps [simp del]

definition trimStart :: "string \<Rightarrow> string" where
  "trimStart s = stripLeading whiteSpace s"

definition trimEnd :: "string \<Rightarrow> string" where
  "trimEnd s = rev (stripLeading (map rev whiteSpace) (rev s))"

definition trim :: "string \<Rightarrow> string" where
  "trim s = trimEnd (trimStart s)"

text \<open>
  \<open>s.lastIndexOf(c, position)\<close> for a one-character search string: the position is
  clamped to \<open>0 .. length s - 1\<close>, the search runs downwards from there and the answer
  is \<open>-1\<close> when the character does not occur.  Without a position the search starts
  at the end.
\<close>

fun lastIndexUpTo :: "string \<Rightarrow> char \<Rightarrow> nat \<Rightarrow> int" where
  "lastIndexUpTo s c 0 = (if s \<noteq> [] \<and> s ! 0 = c then 0 else - 1)"
| "lastIndexUpTo s c (Suc k) =
     (if Suc k < length s \<and> s ! Suc k = c then int (Suc k) else lastIndexUpTo s c k)"

definition lastIndexOf :: "string \<Rightarrow> char \<Rightarrow> int" where
  "lastIndexOf s c = lastIndexUpTo s c (length s - 1)"

definition lastIndexOfFrom :: "string \<Rightarrow> char \<Rightarrow> int \<Rightarrow> int" where
  "lastIndexOfFrom s c position =
     lastIndexUpTo s c (nat (min (max position 0) (int (length s) - 1)))"

text \<open>
  \<open>s.slice(from, to)\<close> and \<open>s.slice(from)\<close>; the parsers only reach them with
  indices that are not negative.
\<close>

definition slice :: "string \<Rightarrow> nat \<Rightarrow> nat \<Rightarrow> string" where
  "slice s from to = take (to - from) (drop from s)"

definition sliceFrom :: "string \<Rightarrow> nat \<Rightarrow> string" where
  "sliceFrom s from = drop from s"

text \<open>
  \<open>decodeURIComponent\<close>: every \<open>%XX\<close> escape is replaced by its octet; an octet
  with the high bit set must start a well-formed UTF-8 sequence whose remaining octets are
  escapes too.  \<open>None\<close> stands for the \<open>URIError\<close> the host throws.
\<close>

definition hexDigit :: "char \<Rightarrow> nat option" where
  "hexDigit c =
     map_of (zip ''0123456789abcdefABCDEF''
                 [0, 1, 2, 3, 4, 5, 6, 7, 8, 9, 10, 11, 12, 13, 14, 15, 10, 11, 12, 13, 14, 15]) c"

fun escapeOctet :: "string \<Rightarrow> (nat \<times> string) option" where
  "escapeOctet (c # h # l # rest) =
     (if c = CHR ''%'' then
        (case hexDigit h of
           None \<Rightarrow> None
         | Some a \<Rightarrow> (case hexDigit l of None \<Rightarrow> None | Some b \<Rightarrow> Some (16 * a + b, rest)))
      else None)"
| "escapeOctet s = None"

fun continuationOctets :: "nat \<Rightarrow> string \<Rightarrow> (nat list \<times> string) option" where
  "continuationOctets 0 s = Some ([], s)"
| "continuationOctets (Suc n) s =
     (case escapeOctet s of
        None \<Rightarrow> None
      | Some (b, rest) \<Rightarrow>
          if 128 \<le> b \<and> b < 192 then
            (case continuationOctets n rest of
               None \<Rightarrow> None
             | Some (bs, rest') \<Rightarrow> Some (b # bs, rest'))
          else None)"

definition sequenceLength :: "nat \<Rightarrow> nat" where
  "sequenceLength b =
     (if b < 128 then 1 else if b < 192 then 0 else if b < 224 then 2
      else if b < 240 then 3 else if b < 248 then 4 else 0)"

fun wellFormedUTF8 :: "nat list \<Rightarrow> bool" where
  "wellFormedUTF8 [a] = (a < 128)"
| "wellFormedUTF8 [a, b] = (194 \<le> a)"
| "wellFormedUTF8 [a, b, c] =
     (if a = 224 then 160 \<le> b else if a = 237 then b < 160 else True)"
| "wellFormedUTF8 [a, b, c, d] =
     (if a = 240 then 144 \<le> b else if a = 244 then b < 144 else a < 244)"
| "wellFormedUTF8 bs = False"

function decodeURIComponent :: "string \<Rightarrow> string option" where
  "decodeURIComponent [] = Some []"
| "decodeURIComponent (c # cs) =
     (if c \<noteq> CHR ''%'' then map_option ((#) c) (decodeURIComponent cs)
      else
        (case escapeOctet (c # cs) of
           None \<Rightarrow> None
         | Some (b, rest) \<Rightarrow>
             if sequenceLength b = 0 then None
             else
               (case continuationOctets (sequenceLength b - 1) rest of
                  None \<Rightarrow> None
                | Some (bs, rest') \<Rightarrow>
                    if wellFormedUTF8 (b # bs)
                    then map_option ((@) (map char_of (b # bs))) (decodeURIComponent rest')
                    else None)))"
  by pat_completeness auto
termination
proof (relation "measure length")
  show "wf (measure (length :: string \<Rightarrow> nat))"
    by simp
next
  fix c :: char and cs :: string
  show "(cs, c # cs) \<in> measure length"
    by simp
next
  fix c :: char and cs rest rest' :: string and x :: "nat \<times> string" and b :: nat
    and y :: "nat list \<times> string" and bs :: "nat list"
  assume e: "escapeOctet (c # cs) = Some x" "(b, rest) = x"
    and k: "continuationOctets (sequenceLength b - 1) rest = Some y" "(bs, rest') = y"
  have shorter: "length r < length s" if "escapeOctet s = Some (v, r)" for s r v
    using that by (cases s rule: escapeOctet.cases) (auto split: if_splits option.splits)
  have no_longer: "length r \<le> length s" if "continuationOctets n s = Some (vs, r)" for n s r vs
    using that
  proof (induction n arbitrary: s vs)
    case 0
    then show ?case by simp
  next
    case (Suc n)
    then show ?case
      by (fastforce split: option.splits if_splits dest: shorter)
  qed
  from e have "length rest < length (c # cs)"
    using shorter [of "c # cs" b rest] by simp
  moreover from k have "length rest' \<le> length rest"
    using no_longer [of "sequenceLength b - 1" rest bs rest'] by simp
  ultimately show "(rest', c # cs) \<in> measure length"
    by simp
qed

text \<open>
  The two regular expressions of the parsers, \<open>/^https?$/i\<close> and
  \<open>/^https?:\/\//i\<close>.  Without the \<open>u\<close> flag the \<open>i\<close> flag relates
  an ASCII letter only to its other ASCII case.
\<close>

definition isBareScheme :: "string \<Rightarrow> bool" where
  "isBareScheme base = (asciiLower base = ''http'' \<or> asciiLower base = ''https'')"

definition hasSchemePrefix :: "string \<Rightarrow> bool" where
  "hasSchemePrefix base =
     (startsWith (asciiLower base) ''http://'' \<or> startsWith (asciiLower base) ''https://'')"

section \<open>LinkParser\<close>

text \<open>
  The host's \<open>URL\<close> class is a parameter of the parsers: \<open>URL base\<close> is
  \<open>None\<close> when \<open>new URL(base)\<close> throws, and otherwise the serialised address
  (\<open>toString()\<close>) and the origin of the parsed address.
\<close>

record url =
  url_href :: string
  url_origin :: string

type_synonym url_class = "string \<Rightarrow> url option"

record colon_link =
  link_url :: string
  link_u :: string
  link_p :: string

definition decodeOrKeep :: "string \<Rightarrow> string" where
  "decodeOrKeep seg = (case decodeURIComponent seg of Some d \<Rightarrow> d | None \<Rightarrow> seg)"

text \<open>\<open>parseColonLink\<close> of the service worker with the origin cooldown.\<close>

definition parseColonLink :: "url_class \<Rightarrow> string \<Rightarrow> colon_link option" where
  "parseColonLink URL raw =
     (if raw = [] then None
      else
        let href = trim raw;
            last = lastIndexOf href CHR '':'';
            prev = lastIndexOfFrom href CHR '':'' (last - 1)
        in
          if last \<le> 0 \<or> prev \<le> 0 then None
          else
            let base = trim (slice href 0 (nat prev));
                u = trim (slice href (nat prev + 1) (nat last));
                p = trim (sliceFrom href (nat last + 1))
            in
              if isBareScheme base then None
              else
                let base' = (if hasSchemePrefix base then base else ''https://'' @ base);
                    u' = decodeOrKeep u;
                    p' = decodeOrKeep p
                in
                  (case URL base' of
                     None \<Rightarrow> None
                   | Some url \<Rightarrow> Some \<lparr>link_url = url_href url, link_u = u', link_p = p'\<rparr>))"

text \<open>\<open>parseColonLinkFlexible\<close> of \<open>background.js\<close>.\<close>

definition parseColonLinkFlexible :: "url_class \<Rightarrow> string \<Rightarrow> colon_link option" where
  "parseColonLinkFlexible URL href =
     (if href = [] then None
      else
        let last = lastIndexOf href CHR '':'';
            prev = lastIndexOfFrom href CHR '':'' (last - 1)
        in
          if last \<le> 0 \<or> prev \<le> 0 then None
          else
            let base = trim (slice href 0 (nat prev));
                u = trim (slice href (nat prev + 1) (nat last));
                p = trim (sliceFrom href (nat last + 1));
                base' = (if hasSchemePrefix base then base else ''https://'' @ base)
            in
              (case URL base' of
                 None \<Rightarrow> None
               | Some url \<Rightarrow>
                   Some \<lparr>link_url = url_href url, link_u = decodeOrKeep u,
                         link_p = decodeOrKeep p\<rparr>))"

section \<open>Coordinator: the service worker with the origin cooldown\<close>

record creds =
  creds_u :: string
  creds_p :: string
  creds_twoStep :: bool
  creds_stage :: string

record coordinator =
  credsByTab :: "nat \<Rightarrow> creds option"
  rawHrefPerTab :: "nat \<Rightarrow> string option"
  failUntilByOrigin :: "string \<Rightarrow> int option"

definition SUBMIT_COOLDOWN_MS :: int where
  "SUBMIT_COOLDOWN_MS = 10 * 60 * 1000"

definition originOf :: "url_class \<Rightarrow> string \<Rightarrow> string" where
  "originOf URL urlStr = (case URL urlStr of None \<Rightarrow> [] | Some parsed \<Rightarrow> url_origin parsed)"

definition armTab :: "nat \<Rightarrow> creds \<Rightarrow> coordinator \<Rightarrow> coordinator" where
  "armTab tabId payload bg = bg\<lparr>credsByTab := (credsByTab bg)(tabId \<mapsto> payload)\<rparr>"

definition disarmTab :: "nat \<Rightarrow> coordinator \<Rightarrow> coordinator" where
  "disarmTab tabId bg = bg\<lparr>credsByTab := (credsByTab bg)(tabId := None)\<rparr>"

text \<open>
  A tab id is \<open>None\<close> when \<open>tab?.id\<close> is undefined; where a handler tests
  it for truthiness, the id \<open>0\<close> fails as well.  A string that may be undefined is an
  option, an empty string is falsy, and \<open>orEmpty s\<close> is \<open>s || ""\<close>.
\<close>

definition truthyStr :: "string option \<Rightarrow> bool" where
  "truthyStr s = (case s of None \<Rightarrow> False | Some v \<Rightarrow> v \<noteq> [])"

definition orEmpty :: "string option \<Rightarrow> string" where
  "orEmpty s = (case s of None \<Rightarrow> [] | Some v \<Rightarrow> v)"

record click_info =
  menuItemId :: string
  selectionText :: "string option"
  linkUrl :: "string option"

datatype opened = TabsCreate string | WindowsCreateIncognito string

text \<open>
  \<open>contextMenus.onClicked\<close>.  \<open>now\<close> is \<open>Date.now()\<close>; \<open>newTab\<close> is
  the id of the tab the host hands to the creation callback, \<open>None\<close> when the callback
  receives no tab.  The result is the coordinator after the callback and what was opened.
  \<open>clickedRaw\<close> is the text the handler parses: the cached raw href of the tab, else
  the selection, else the address of the link, else the empty string.
\<close>

definition cachedHref :: "nat option \<Rightarrow> coordinator \<Rightarrow> string option" where
  "cachedHref tabId bg = (case tabId of None \<Rightarrow> None | Some t \<Rightarrow> rawHrefPerTab bg t)"

definition clickedRaw :: "click_info \<Rightarrow> nat option \<Rightarrow> coordinator \<Rightarrow> string" where
  "clickedRaw info tabId bg =
     (if truthyStr (cachedHref tabId bg) then orEmpty (cachedHref tabId bg)
      else if truthyStr (selectionText info) then orEmpty (selectionText info)
      else orEmpty (linkUrl info))"

definition onClicked ::
  "url_class \<Rightarrow> int \<Rightarrow> click_info \<Rightarrow> nat option \<Rightarrow> nat option \<Rightarrow> coordinator
     \<Rightarrow> coordinator \<times> opened list" where
  "onClicked URL now info tabId newTab bg =
     (let cached = cachedHref tabId bg;
          bg1 = (if truthyStr cached
                 then (case tabId of
                         None \<Rightarrow> bg
                       | Some t \<Rightarrow> bg\<lparr>rawHrefPerTab := (rawHrefPerTab bg)(t := None)\<rparr>)
                 else bg);
          raw = clickedRaw info tabId bg
      in
        case parseColonLink URL raw of
          None \<Rightarrow> (bg1, [])
        | Some parsed \<Rightarrow>
            let origin = originOf URL (link_url parsed);
                until = (case failUntilByOrigin bg1 origin of None \<Rightarrow> 0 | Some v \<Rightarrow> v);
                twoStep = (menuItemId info = ''cl-open-2step''
                           \<or> menuItemId info = ''cl-open-incog-2step'');
                incog = (menuItemId info = ''cl-open-incog''
                         \<or> menuItemId info = ''cl-open-incog-2step'');
                payload = \<lparr>creds_u = link_u parsed, creds_p = link_p parsed,
                           creds_twoStep = twoStep, creds_stage = ''init''\<rparr>
            in
              if now < until then
                (bg1, [if incog then WindowsCreateIncognito (link_url parsed)
                       else TabsCreate (link_url parsed)])
              else if incog then
                (case newTab of
                   None \<Rightarrow> bg1
                 | Some n \<Rightarrow> if n \<noteq> 0 then armTab n payload bg1 else bg1,
                 [WindowsCreateIncognito (link_url parsed)])
              else
                (case newTab of None \<Rightarrow> bg1 | Some n \<Rightarrow> armTab n payload bg1,
                 [TabsCreate (link_url parsed)]))"

datatype message =
    StoreRawHref string
  | RequestCreds
  | UpdateStage string
  | ClearCreds
  | MarkOriginFailure

record sender =
  sender_tabId :: "nat option"
  sender_url :: "string option"

text \<open>
  \<open>runtime.onMessage\<close>: the coordinator after the message and, for
  \<open>requestCreds\<close>, the \<open>creds\<close> of the response.
\<close>

definition onMessage ::
  "url_class \<Rightarrow> int \<Rightarrow> message \<Rightarrow> sender \<Rightarrow> coordinator
     \<Rightarrow> coordinator \<times> creds option option" where
  "onMessage URL now msg from bg =
     (case sender_tabId from of
        None \<Rightarrow> (bg, None)
      | Some tabId \<Rightarrow>
          if tabId = 0 then (bg, None)
          else
            (case msg of
               StoreRawHref href \<Rightarrow>
                 (bg\<lparr>rawHrefPerTab := (rawHrefPerTab bg)(tabId \<mapsto> href)\<rparr>, None)
             | RequestCreds \<Rightarrow> (bg, Some (credsByTab bg tabId))
             | UpdateStage st \<Rightarrow>
                 (case credsByTab bg tabId of
                    None \<Rightarrow> (bg, None)
                  | Some c \<Rightarrow>
                      (bg\<lparr>credsByTab := (credsByTab bg)(tabId \<mapsto> c\<lparr>creds_stage := st\<rparr>)\<rparr>,
                       None))
             | ClearCreds \<Rightarrow> (disarmTab tabId bg, None)
             | MarkOriginFailure \<Rightarrow>
                 (let url = orEmpty (sender_url from);
                      origin = originOf URL url
                  in
                    if origin \<noteq> []
                    then (bg\<lparr>failUntilByOrigin :=
                               (failUntilByOrigin bg)(origin \<mapsto> now + SUBMIT_COOLDOWN_MS)\<rparr>,
                          None)
                    else (bg, None))))"

section \<open>Pages\<close>

text \<open>
  An input element carries what the scripts read from it: the \<open>type\<close> attribute, the
  \<open>name\<close>, \<open>id\<close>, \<open>placeholder\<close> and \<open>autocomplete\<close> properties, the
  \<open>aria-label\<close> attribute (\<open>None\<close> for \<open>null\<close>), its form owner
  (\<open>el.form\<close>) and the form elements it lies within.  \<open>el_node\<close> identifies the
  node.
\<close>

record element =
  el_node :: nat
  el_typeAttr :: "string option"
  el_name :: string
  el_id :: string
  el_placeholder :: string
  el_ariaLabel :: "string option"
  el_autocomplete :: string
  el_form :: "nat option"
  el_within :: "nat list"

text \<open>
  \<open>el.type\<close> reflects the attribute limited to the known keywords: a missing or unknown
  value reads as \<open>text\<close>.
\<close>

definition inputTypes :: "string list" where
  "inputTypes =
     [''hidden'', ''text'', ''search'', ''tel'', ''url'', ''email'', ''password'', ''date'',
      ''month'', ''week'', ''time'', ''datetime-local'', ''number'', ''range'', ''color'',
      ''checkbox'', ''radio'', ''file'', ''submit'', ''image'', ''reset'', ''button'']"

definition el_type :: "element \<Rightarrow> string" where
  "el_type el =
     (case el_typeAttr el of
        None \<Rightarrow> ''text''
      | Some v \<Rightarrow> if List.member inputTypes (asciiLower v) then asciiLower v else ''text'')"

text \<open>
  A root (the document, a shadow root or the document of a frame) is represented by the
  answer of \<open>root.querySelectorAll("input")\<close>, in document order.  A page is what one
  trigger observes: its roots as \<open>allRoots\<close> collects them, the text of the body
  (\<open>None\<close> when reading it throws), the address, the clock, and for every element the
  control that the search for a submit control near it returns.
\<close>

type_synonym root = "element list"

record page =
  pg_document :: root
  pg_shadowRoots :: "root list"
  pg_frames :: "root list"
  pg_bodyText :: "string option"
  pg_href :: string
  pg_now :: int
  pg_submitNear :: "nat \<Rightarrow> nat option"

definition allRoots :: "page \<Rightarrow> root list" where
  "allRoots pg = pg_document pg # pg_shadowRoots pg @ pg_frames pg"

text \<open>
  What a callback does to the outside: \<open>SetVal n v\<close> is \<open>setVal\<close> on the node
  \<open>n\<close> with the value \<open>v\<close>, \<open>Click n\<close> is \<open>click()\<close> on the control
  \<open>n\<close>, and \<open>Send m\<close> is a message to the coordinator over a live channel.  Logging
  and toasts are left out.  One trigger reads the clock and the address once, and no host
  call inside the \<open>try\<close> blocks of the fill functions throws.
\<close>

datatype effect = SetVal nat string | Click nat | Send message

section \<open>Content script with the anti-loop governor\<close>

definition AUTO_SUBMIT_DEFAULT :: bool where
  "AUTO_SUBMIT_DEFAULT = False"

definition MAX_SUBMITS_PER_TAB :: nat where
  "MAX_SUBMITS_PER_TAB = 1"

definition FAILURE_TERMS :: "string list" where
  "FAILURE_TERMS =
     [''invalid'',
      ''incorrect'',
      ''try again'',
      ''failed'',
      ''mismatch'',
      ''not match'',
      ''unauthorized'',
      ''forbidden'',
      ''access denied'',
      ''locked'',
      ''captcha'',
      ''too many'',
      ''limit'',
      ''banned'',
      [CHR 0xE7, CHR 0x84, CHR 0xA1, CHR 0xE5, CHR 0x8A, CHR 0xB9],
      [CHR 0xE3, CHR 0x82, CHR 0xA8, CHR 0xE3, CHR 0x83, CHR 0xA9, CHR 0xE3, CHR 0x83,
        CHR 0xBC],
      [CHR 0xE9, CHR 0x94, CHR 0x99, CHR 0xE8, CHR 0xAF, CHR 0xAF],
      [CHR 0xE5, CHR 0xA4, CHR 0xB1, CHR 0xE6, CHR 0x95, CHR 0x97],
      ''fehlgeschlagen'',
      [CHR 0xD0, CHR 0xBD, CHR 0xD0, CHR 0xB5, CHR 0xD0, CHR 0xB2, CHR 0xD0, CHR 0xB5,
        CHR 0xD1, CHR 0x80, CHR 0xD0, CHR 0xBD, CHR 0xD1, CHR 0x8B, CHR 0xD0, CHR 0xB9],
      [CHR 0xD0, CHR 0xBE, CHR 0xD1, CHR 0x88, CHR 0xD0, CHR 0xB8, CHR 0xD0, CHR 0xB1,
        CHR 0xD0, CHR 0xBA, CHR 0xD0, CHR 0xB0],
      ''gagal'']"

definition USER_TERMS :: "string list" where
  "USER_TERMS =
     [''user'',
      ''username'',
      ''login'',
      ''email'',
      ''e-mail'',
      ''mail'',
      ''id'',
      ''correo'',
      ''benutzer'',
      [CHR 0xEB, CHR 0xA1, CHR 0x9C, CHR 0xEA, CHR 0xB7, CHR 0xB8, CHR 0xEC, CHR 0x9D,
        CHR 0xB8],
      [CHR 0xE3, CHR 0x83, CHR 0xA1, CHR 0xE3, CHR 0x83, CHR 0xBC, CHR 0xE3, CHR 0x83,
        CHR 0xAB],
      [CHR 0xE9, CHR 0x82, CHR 0xAE, CHR 0xE7, CHR 0xAE, CHR 0xB1],
      [CHR 0xE5, CHR 0xB8, CHR 0xB3, CHR 0xE8, CHR 0x99, CHR 0x9F]]"

definition PASS_TERMS :: "string list" where
  "PASS_TERMS =
     [''pass'',
      ''password'',
      ''senha'',
      [CHR 0xD0, CHR 0xBF, CHR 0xD0, CHR 0xB0, CHR 0xD1, CHR 0x80, CHR 0xD0, CHR 0xBE,
        CHR 0xD0, CHR 0xBB, CHR 0xD1, CHR 0x8C],
      [CHR 0xD7, CHR 0xA1, CHR 0xD7, CHR 0x99, CHR 0xD7, CHR 0xA1, CHR 0xD7, CHR 0x9E,
        CHR 0xD7, CHR 0x94],
      [CHR 0xE5, CHR 0xAF, CHR 0x86, CHR 0xE7, CHR 0xA2, CHR 0xBC],
      [CHR 0xE5, CHR 0xAF, CHR 0x86, CHR 0xE7, CHR 0xA0, CHR 0x81],
      [CHR 0xEB, CHR 0xB9, CHR 0x84, CHR 0xEB, CHR 0xB0, CHR 0x80, CHR 0xEB, CHR 0xB2,
        CHR 0x88, CHR 0xED, CHR 0x98, CHR 0xB8],
      [CHR 0xE3, CHR 0x83, CHR 0x91, CHR 0xE3, CHR 0x82, CHR 0xB9, CHR 0xE3, CHR 0x83,
        CHR 0xAF, CHR 0xE3, CHR 0x83, CHR 0xBC, CHR 0xE3, CHR 0x83, CHR 0x89]]"

text \<open>
  \<open>norm\<close> is \<open>toLowerCase\<close> of the host on the string; so is the lower-casing of
  the body text in \<open>pageShowsLikelyFailure\<close>.
\<close>

definition norm :: "lower_case \<Rightarrow> string \<Rightarrow> string" where
  "norm lower s = lower s"

definition hasAny :: "lower_case \<Rightarrow> string \<Rightarrow> string list \<Rightarrow> bool" where
  "hasAny lower s arr = list_ex (\<lambda>t. includes_js (norm lower s) t) arr"

definition meta :: "element \<Rightarrow> string" where
  "meta el =
     el_name el @ '' '' @ el_id el @ '' '' @ el_placeholder el @ '' ''
       @ (case el_ariaLabel el of None \<Rightarrow> [] | Some a \<Rightarrow> a)"

definition userScoreOf :: "lower_case \<Rightarrow> element \<Rightarrow> int" where
  "userScoreOf lower el =
     (let t = norm lower (el_type el);
          s1 = (if t = [] \<or> t = ''text'' \<or> t = ''email'' then 2 else 0);
          s2 = (if hasAny lower (meta el) USER_TERMS then s1 + 6 else s1);
          ac = norm lower (el_autocomplete el);
          s3 = (if ac = ''username'' \<or> ac = ''email'' then s2 + 6 else s2)
      in if t = ''email'' then s3 + 3 else s3)"

definition passScoreOf :: "lower_case \<Rightarrow> element \<Rightarrow> int" where
  "passScoreOf lower el =
     (let t = norm lower (el_type el);
          s1 = (if t = ''password'' then 8 else 0);
          s2 = (if hasAny lower (meta el) PASS_TERMS then s1 + 6 else s1);
          ac = norm lower (el_autocomplete el)
      in if includes_js ac ''password'' then s2 + 6 else s2)"

text \<open>
  One scoring loop of \<open>findBestInputs\<close>: the best element so far and its score, which
  starts at \<open>-1\<close>; an element replaces the best only with a strictly greater score.
\<close>

fun bestLoop ::
  "(element \<Rightarrow> int) \<Rightarrow> element list \<Rightarrow> element option \<Rightarrow> int \<Rightarrow> element option \<times> int" where
  "bestLoop score [] best bestScore = (best, bestScore)"
| "bestLoop score (el # els) best bestScore =
     (if score el > bestScore then bestLoop score els (Some el) (score el)
      else bestLoop score els best bestScore)"

definition findBestInputs ::
  "lower_case \<Rightarrow> root \<Rightarrow> element option \<times> element option" where
  "findBestInputs lower inputs =
     (fst (bestLoop (userScoreOf lower) inputs None (- 1)), fst (bestLoop (passScoreOf lower) inputs None (- 1)))"

text \<open>
  The state of one page context: \<open>state\<close> and \<open>anti\<close> of the script, and of the
  running flow the attempt counter, whether the interval is still set and whether the
  mutation observer is still connected.
\<close>

record content =
  armed :: bool
  state_u :: string
  state_p :: string
  twoStep :: bool
  stage :: string
  autoSubmit :: bool
  submittedCount :: nat
  lastSubmitAt :: int
  coolDownUntil :: int
  lastUrlAfterSubmit :: string
  attempts :: nat
  intervalSet :: bool
  observing :: bool

definition initialContent :: "bool \<Rightarrow> content" where
  "initialContent auto =
     \<lparr>armed = False, state_u = [], state_p = [], twoStep = False, stage = [],
      autoSubmit = auto, submittedCount = 0, lastSubmitAt = 0, coolDownUntil = 0,
      lastUrlAfterSubmit = [], attempts = 0, intervalSet = False, observing = False\<rparr>"

definition canAutoSubmit :: "page \<Rightarrow> content \<Rightarrow> bool" where
  "canAutoSubmit pg cs =
     (if \<not> autoSubmit cs then False
      else if pg_now pg < coolDownUntil cs then False
      else if submittedCount cs \<ge> MAX_SUBMITS_PER_TAB then False
      else True)"

definition recordSubmit :: "page \<Rightarrow> content \<Rightarrow> content" where
  "recordSubmit pg cs =
     cs\<lparr>submittedCount := submittedCount cs + 1, lastSubmitAt := pg_now pg,
        lastUrlAfterSubmit := pg_href pg\<rparr>"

definition onFailureCoolDown :: "page \<Rightarrow> content \<Rightarrow> content" where
  "onFailureCoolDown pg cs = cs\<lparr>coolDownUntil := pg_now pg + SUBMIT_COOLDOWN_MS\<rparr>"

definition pageShowsLikelyFailure ::
  "lower_case \<Rightarrow> page \<Rightarrow> content \<Rightarrow> bool" where
  "pageShowsLikelyFailure lower pg cs =
     (if (case pg_bodyText pg of
            None \<Rightarrow> False
          | Some txt \<Rightarrow> list_ex (\<lambda>k. includes_js (lower txt) k) FAILURE_TERMS)
      then True
      else
        (case snd (findBestInputs lower (pg_document pg)) of
           None \<Rightarrow> False
         | Some passBest \<Rightarrow>
             lastUrlAfterSubmit cs \<noteq> [] \<and> lastUrlAfterSubmit cs = pg_href pg))"

text \<open>
  The shared tail of the three fill functions: look for a submit control near the element
  and, when there is one and the gate is open, click it and record the submission.
\<close>

definition submitNear :: "page \<Rightarrow> element \<Rightarrow> content \<Rightarrow> content \<times> effect list" where
  "submitNear pg el cs =
     (case pg_submitNear pg (el_node el) of
        None \<Rightarrow> (cs, [])
      | Some submit \<Rightarrow>
          if canAutoSubmit pg cs then (recordSubmit pg cs, [Click submit]) else (cs, []))"

fun fillBothRoots ::
  "lower_case \<Rightarrow> page \<Rightarrow> string \<Rightarrow> string \<Rightarrow> root list \<Rightarrow> bool \<Rightarrow> content
     \<Rightarrow> bool \<times> content \<times> effect list" where
  "fillBothRoots lower pg u p [] anyFilled cs = (anyFilled, cs, [])"
| "fillBothRoots lower pg u p (r # roots) anyFilled cs =
     (case findBestInputs lower r of
        (userBest, passBest) \<Rightarrow>
          let setUser = (case userBest of None \<Rightarrow> [] | Some ub \<Rightarrow>
                           if u \<noteq> [] then [SetVal (el_node ub) u] else []);
              setPass = (case passBest of None \<Rightarrow> [] | Some pb \<Rightarrow>
                           if p \<noteq> [] then [SetVal (el_node pb) p] else []);
              changed = (setUser \<noteq> [] \<or> setPass \<noteq> []);
              anyFilled' = (anyFilled \<or> changed)
          in
            (case passBest of
               None \<Rightarrow>
                 (case fillBothRoots lower pg u p roots anyFilled' cs of
                    (res, cs', es) \<Rightarrow> (res, cs', setUser @ setPass @ es))
             | Some pb \<Rightarrow>
                 if changed then
                   (case submitNear pg pb cs of
                      (cs', click) \<Rightarrow> (True, cs', setUser @ setPass @ click))
                 else
                   (case fillBothRoots lower pg u p roots anyFilled' cs of
                      (res, cs', es) \<Rightarrow> (res, cs', setUser @ setPass @ es))))"

definition fillBoth ::
  "lower_case \<Rightarrow> page \<Rightarrow> string \<Rightarrow> string \<Rightarrow> content \<Rightarrow> bool \<times> content \<times> effect list" where
  "fillBoth lower pg u p cs = fillBothRoots lower pg u p (allRoots pg) False cs"

fun fillUserRoots ::
  "lower_case \<Rightarrow> page \<Rightarrow> string \<Rightarrow> root list \<Rightarrow> content \<Rightarrow> bool \<times> content \<times> effect list" where
  "fillUserRoots lower pg u [] cs = (False, cs, [])"
| "fillUserRoots lower pg u (r # roots) cs =
     (case findBestInputs lower r of
        (Some ub, None) \<Rightarrow>
          if u \<noteq> [] then
            (case submitNear pg ub cs of
               (cs', click) \<Rightarrow> (True, cs', SetVal (el_node ub) u # click))
          else fillUserRoots lower pg u roots cs
      | _ \<Rightarrow> fillUserRoots lower pg u roots cs)"

definition fillUser ::
  "lower_case \<Rightarrow> page \<Rightarrow> string \<Rightarrow> content \<Rightarrow> bool \<times> content \<times> effect list" where
  "fillUser lower pg u cs = fillUserRoots lower pg u (allRoots pg) cs"

fun fillPassRoots ::
  "lower_case \<Rightarrow> page \<Rightarrow> string \<Rightarrow> root list \<Rightarrow> content \<Rightarrow> bool \<times> content \<times> effect list" where
  "fillPassRoots lower pg p [] cs = (False, cs, [])"
| "fillPassRoots lower pg p (r # roots) cs =
     (case snd (findBestInputs lower r) of
        Some pb \<Rightarrow>
          if p \<noteq> [] then
            (case submitNear pg pb cs of
               (cs', click) \<Rightarrow> (True, cs', SetVal (el_node pb) p # click))
          else fillPassRoots lower pg p roots cs
      | None \<Rightarrow> fillPassRoots lower pg p roots cs)"

definition fillPass ::
  "lower_case \<Rightarrow> page \<Rightarrow> string \<Rightarrow> content \<Rightarrow> bool \<times> content \<times> effect list" where
  "fillPass lower pg p cs = fillPassRoots lower pg p (allRoots pg) cs"

text \<open>
  The callback of \<open>requestCreds\<close>: without credentials nothing starts; with them the
  state is armed and \<open>runNormal\<close> or \<open>runTwoStep\<close> sets its interval and connects
  its observer.
\<close>

definition requestCreds :: "creds option \<Rightarrow> content \<Rightarrow> content" where
  "requestCreds res cs =
     (case res of
        None \<Rightarrow> cs
      | Some c \<Rightarrow>
          cs\<lparr>armed := True, state_u := creds_u c, state_p := creds_p c,
             twoStep := creds_twoStep c,
             stage := (if creds_stage c \<noteq> [] then creds_stage c else ''init''),
             attempts := 0, intervalSet := True, observing := True\<rparr>)"

definition failureDetected :: "page \<Rightarrow> content \<Rightarrow> content \<times> effect list" where
  "failureDetected pg cs =
     ((onFailureCoolDown pg (cs\<lparr>armed := False\<rparr>))\<lparr>intervalSet := False\<rparr>,
      [Send ClearCreds, Send MarkOriginFailure])"

text \<open>The interval callback of \<open>runNormal\<close>.\<close>

definition tickNormal ::
  "lower_case \<Rightarrow> page \<Rightarrow> content \<Rightarrow> content \<times> effect list" where
  "tickNormal lower pg cs0 =
     (let cs = cs0\<lparr>attempts := attempts cs0 + 1\<rparr> in
        if \<not> armed cs then (cs\<lparr>intervalSet := False\<rparr>, [])
        else if pageShowsLikelyFailure lower pg cs then failureDetected pg cs
        else
          (case fillBoth lower pg (state_u cs) (state_p cs) cs of
             (filled, cs', es) \<Rightarrow>
               if filled then (cs'\<lparr>armed := False, intervalSet := False\<rparr>, es @ [Send ClearCreds])
               else if attempts cs' \<ge> 400 then (cs'\<lparr>intervalSet := False\<rparr>, es)
               else (cs', es)))"

text \<open>The observer callback of \<open>runNormal\<close>.\<close>

definition mutationNormal ::
  "lower_case \<Rightarrow> page \<Rightarrow> content \<Rightarrow> content \<times> effect list" where
  "mutationNormal lower pg cs =
     (if \<not> armed cs then (cs, [])
      else (case fillBoth lower pg (state_u cs) (state_p cs) cs of (filled, cs', es) \<Rightarrow> (cs', es)))"

text \<open>The interval callback of \<open>runTwoStep\<close>.\<close>

definition timeOutTwoStep :: "content \<times> effect list \<Rightarrow> content \<times> effect list" where
  "timeOutTwoStep r =
     (case r of (cs, es) \<Rightarrow> if attempts cs \<ge> 1000 then (cs\<lparr>intervalSet := False\<rparr>, es) else (cs, es))"

definition tickTwoStep ::
  "lower_case \<Rightarrow> page \<Rightarrow> content \<Rightarrow> content \<times> effect list" where
  "tickTwoStep lower pg cs0 =
     (let cs = cs0\<lparr>attempts := attempts cs0 + 1\<rparr> in
        if \<not> armed cs then (cs\<lparr>intervalSet := False\<rparr>, [])
        else if pageShowsLikelyFailure lower pg cs then failureDetected pg cs
        else if stage cs = ''init'' then
          (case fillBoth lower pg (state_u cs) (state_p cs) cs of
             (filled, cs1, es1) \<Rightarrow>
               if filled then (cs1\<lparr>armed := False, intervalSet := False\<rparr>, es1 @ [Send ClearCreds])
               else
                 (case fillUser lower pg (state_u cs1) cs1 of
                    (userFilled, cs2, es2) \<Rightarrow>
                      if userFilled
                      then timeOutTwoStep
                             (cs2\<lparr>stage := ''userSubmitted''\<rparr>,
                              es1 @ es2 @ [Send (UpdateStage ''userSubmitted'')])
                      else timeOutTwoStep (cs2, es1 @ es2)))
        else
          (case fillPass lower pg (state_p cs) cs of
             (filled, cs1, es1) \<Rightarrow>
               if filled
               then timeOutTwoStep
                      (cs1\<lparr>armed := False, intervalSet := False\<rparr>, es1 @ [Send ClearCreds])
               else timeOutTwoStep (cs1, es1)))"

text \<open>The observer callback of \<open>runTwoStep\<close>.\<close>

definition mutationTwoStep ::
  "lower_case \<Rightarrow> page \<Rightarrow> content \<Rightarrow> content \<times> effect list" where
  "mutationTwoStep lower pg cs =
     (if \<not> armed cs then (cs, [])
      else if stage cs = ''userSubmitted'' then
        (case fillPass lower pg (state_p cs) cs of (filled, cs', es) \<Rightarrow> (cs', es))
      else
        (case fillBoth lower pg (state_u cs) (state_p cs) cs of (filled, cs', es) \<Rightarrow> (cs', es)))"

text \<open>
  The triggers of a page context: a poll tick reaches the interval callback while the
  interval is set, a mutation notification reaches the observer callback while the observer
  is connected, and the time-out of the flow disconnects the observer.
\<close>

datatype trigger = Tick page | Mutation page | ObserverTimeout

fun step ::
  "lower_case \<Rightarrow> content \<Rightarrow> trigger \<Rightarrow> content \<times> effect list" where
  "step lower cs (Tick pg) =
     (if \<not> intervalSet cs then (cs, [])
      else if twoStep cs then tickTwoStep lower pg cs else tickNormal lower pg cs)"
| "step lower cs (Mutation pg) =
     (if \<not> observing cs then (cs, [])
      else if twoStep cs then mutationTwoStep lower pg cs else mutationNormal lower pg cs)"
| "step lower cs ObserverTimeout = (cs\<lparr>observing := False\<rparr>, [])"

fun run ::
  "lower_case \<Rightarrow> content \<Rightarrow> trigger list \<Rightarrow> content \<times> effect list" where
  "run lower cs [] = (cs, [])"
| "run lower cs (t # ts) =
     (case step lower cs t of (cs', es) \<Rightarrow> (case run lower cs' ts of (cs'', es') \<Rightarrow> (cs'', es @ es')))"

text \<open>
  A whole page context: the script starts from its initial state with the configured
  default for automatic submission, receives the reply to \<open>requestCreds\<close> and then the
  triggers.
\<close>

definition pageContext ::
  "lower_case \<Rightarrow> bool \<Rightarrow> creds option \<Rightarrow> trigger list \<Rightarrow> content \<times> effect list" where
  "pageContext lower auto res ts = run lower (requestCreds res (initialContent auto)) ts"

definition clicks :: "effect list \<Rightarrow> nat" where
  "clicks es = length (filter (\<lambda>e. case e of Click b \<Rightarrow> True | _ \<Rightarrow> False) es)"

definition fills :: "effect list \<Rightarrow> nat" where
  "fills es = length (filter (\<lambda>e. case e of SetVal n v \<Rightarrow> True | _ \<Rightarrow> False) es)"

section \<open>Content script without the governor (\<open>content.js\<close>)\<close>

definition USER_TERMS_content :: "string list" where
  "USER_TERMS_content =
     [''user'',
      ''username'',
      ''login'',
      ''email'',
      ''e-mail'',
      ''mail'',
      ''usuario'',
      ''usu'' @ [CHR 0xC3, CHR 0xA1] @ ''rio'',
      ''utilisateur'',
      ''utente'',
      ''usuari'',
      ''correo'',
      ''adresse'',
      ''benutzer'',
      ''benutzername'',
      ''anmelden'',
      ''einloggen'',
      ''brugernavn'',
      ''gebruikersnaam'',
      ''e-post'',
      [CHR 0xD0, CHR 0xB8, CHR 0xD0, CHR 0xBC, CHR 0xD1, CHR 0x8F],
      [CHR 0xD0, CHR 0xBB, CHR 0xD0, CHR 0xBE, CHR 0xD0, CHR 0xB3, CHR 0xD0, CHR 0xB8,
        CHR 0xD0, CHR 0xBD],
      [CHR 0xD0, CHR 0xBF, CHR 0xD0, CHR 0xBE, CHR 0xD0, CHR 0xBB, CHR 0xD1, CHR 0x8C,
        CHR 0xD0, CHR 0xB7, CHR 0xD0, CHR 0xBE, CHR 0xD0, CHR 0xB2],
      [CHR 0xD0, CHR 0xBA, CHR 0xD0, CHR 0xBE, CHR 0xD1, CHR 0x80, CHR 0xD0, CHR 0xB8,
        CHR 0xD1, CHR 0x81, CHR 0xD1, CHR 0x82, CHR 0xD1, CHR 0x83, CHR 0xD0, CHR 0xB2, CHR 0xD0,
        CHR 0xB0, CHR 0xD1, CHR 0x87],
      [CHR 0xD0, CHR 0xBB, CHR 0xD0, CHR 0xBE, CHR 0xD0, CHR 0xB3, CHR 0xD1, CHR 0x96,
        CHR 0xD0, CHR 0xBD],
      ''u'' @ [CHR 0xC5, CHR 0xBC] @ ''ytkownik'',
      ''kullan'' @ [CHR 0xC4, CHR 0xB1] @ ''c'' @ [CHR 0xC4, CHR 0xB1],
      ''eposta'',
      [CHR 0xCF, CHR 0x87, CHR 0xCF, CHR 0x81, CHR 0xCE, CHR 0xAE, CHR 0xCF, CHR 0x83,
        CHR 0xCF, CHR 0x84, CHR 0xCE, CHR 0xB7],
      [CHR 0xCF, CHR 0x83, CHR 0xCF, CHR 0x8D, CHR 0xCE, CHR 0xBD, CHR 0xCE, CHR 0xB4,
        CHR 0xCE, CHR 0xB5, CHR 0xCF, CHR 0x83, CHR 0xCE, CHR 0xB7],
      [CHR 0xD7, CHR 0x9E, CHR 0xD7, CHR 0xA9, CHR 0xD7, CHR 0xAA, CHR 0xD7, CHR 0x9E,
        CHR 0xD7, CHR 0xA9],
      [CHR 0xD7, CHR 0x93, CHR 0xD7, CHR 0x95, CHR 0xD7, CHR 0x90, CHR 0x22, CHR 0xD7,
        CHR 0x9C],
      [CHR 0xD8, CHR 0xA8, CHR 0xD8, CHR 0xB1, CHR 0xD9, CHR 0x8A, CHR 0xD8, CHR 0xAF],
      [CHR 0xD9, CHR 0x85, CHR 0xD8, CHR 0xB3, CHR 0xD8, CHR 0xAA, CHR 0xD8, CHR 0xAE,
        CHR 0xD8, CHR 0xAF, CHR 0xD9, CHR 0x85],
      [CHR 0xD8, CHR 0xAD, CHR 0xD8, CHR 0xB3, CHR 0xD8, CHR 0xA7, CHR 0xD8, CHR 0xA8],
      [CHR 0xD8, CHR 0xA7, CHR 0xD9, CHR 0x8A, CHR 0xD9, CHR 0x85, CHR 0xD9, CHR 0x8A,
        CHR 0xD9, CHR 0x84],
      [CHR 0xE0, CHR 0xA4, CHR 0x88, CHR 0xE0, CHR 0xA4, CHR 0xAE, CHR 0xE0, CHR 0xA5,
        CHR 0x87, CHR 0xE0, CHR 0xA4, CHR 0xB2],
      [CHR 0xE0, CHR 0xA4, CHR 0x89, CHR 0xE0, CHR 0xA4, CHR 0xAA, CHR 0xE0, CHR 0xA4,
        CHR 0xAF, CHR 0xE0, CHR 0xA5, CHR 0x8B, CHR 0xE0, CHR 0xA4, CHR 0x97, CHR 0xE0, CHR 0xA4,
        CHR 0x95, CHR 0xE0, CHR 0xA4, CHR 0xB0, CHR 0xE0, CHR 0xA5, CHR 0x8D, CHR 0xE0, CHR 0xA4,
        CHR 0xA4, CHR 0xE0, CHR 0xA4, CHR 0xBE],
      [CHR 0xE3, CHR 0x83, CHR 0xA1, CHR 0xE3, CHR 0x83, CHR 0xBC, CHR 0xE3, CHR 0x83,
        CHR 0xAB],
      [CHR 0xE3, CHR 0x83, CHR 0xA6, CHR 0xE3, CHR 0x83, CHR 0xBC, CHR 0xE3, CHR 0x82,
        CHR 0xB6, CHR 0xE3, CHR 0x83, CHR 0xBC],
      [CHR 0xE3, CHR 0x83, CHR 0xAD, CHR 0xE3, CHR 0x82, CHR 0xB0, CHR 0xE3, CHR 0x82,
        CHR 0xA4, CHR 0xE3, CHR 0x83, CHR 0xB3],
      [CHR 0xE7, CHR 0x94, CHR 0xB5, CHR 0xE5, CHR 0xAD, CHR 0x90, CHR 0xE9, CHR 0x82,
        CHR 0xAE, CHR 0xE4, CHR 0xBB, CHR 0xB6],
      [CHR 0xE9, CHR 0x83, CHR 0xB5, CHR 0xE4, CHR 0xBB, CHR 0xB6],
      [CHR 0xE9, CHR 0x82, CHR 0xAE, CHR 0xE7, CHR 0xAE, CHR 0xB1],
      [CHR 0xE5, CHR 0xB8, CHR 0xB3, CHR 0xE8, CHR 0x99, CHR 0x9F],
      [CHR 0xE8, CHR 0xB3, CHR 0xAC, CHR 0xE8, CHR 0x99, CHR 0x9F],
      [CHR 0xEC, CHR 0x82, CHR 0xAC, CHR 0xEC, CHR 0x9A, CHR 0xA9, CHR 0xEC, CHR 0x9E,
        CHR 0x90],
      [CHR 0xEC, CHR 0x95, CHR 0x84, CHR 0xEC, CHR 0x9D, CHR 0xB4, CHR 0xEB, CHR 0x94, CHR 0x94]]"

definition PASS_TERMS_content :: "string list" where
  "PASS_TERMS_content =
     [''pass'',
      ''password'',
      ''senha'',
      ''mot de passe'',
      ''contrasena'',
      ''contrase'' @ [CHR 0xC3, CHR 0xB1] @ ''a'',
      ''has'' @ [CHR 0xC5, CHR 0x82] @ ''o'',
      [CHR 0xC5, CHR 0x9F] @ ''ifre'',
      [CHR 0xD0, CHR 0xBF, CHR 0xD0, CHR 0xB0, CHR 0xD1, CHR 0x80, CHR 0xD0, CHR 0xBE,
        CHR 0xD0, CHR 0xBB, CHR 0xD1, CHR 0x8C],
      [CHR 0xD7, CHR 0xA1, CHR 0xD7, CHR 0x99, CHR 0xD7, CHR 0xA1, CHR 0xD7, CHR 0x9E,
        CHR 0xD7, CHR 0x94],
      [CHR 0xE5, CHR 0xAF, CHR 0x86, CHR 0xE7, CHR 0xA2, CHR 0xBC],
      [CHR 0xE5, CHR 0xAF, CHR 0x86, CHR 0xE7, CHR 0xA0, CHR 0x81],
      [CHR 0xEC, CHR 0x95, CHR 0x94, CHR 0xED, CHR 0x98, CHR 0xB8],
      [CHR 0xEB, CHR 0xB9, CHR 0x84, CHR 0xEB, CHR 0xB0, CHR 0x80, CHR 0xEB, CHR 0xB2,
        CHR 0x88, CHR 0xED, CHR 0x98, CHR 0xB8],
      [CHR 0xE3, CHR 0x83, CHR 0x91, CHR 0xE3, CHR 0x82, CHR 0xB9, CHR 0xE3, CHR 0x83,
        CHR 0xAF, CHR 0xE3, CHR 0x83, CHR 0xBC, CHR 0xE3, CHR 0x83, CHR 0x89],
      [CHR 0xE0, CHR 0xB8, CHR 0xA3, CHR 0xE0, CHR 0xB8, CHR 0xAB, CHR 0xE0, CHR 0xB8,
        CHR 0xB1, CHR 0xE0, CHR 0xB8, CHR 0xAA, CHR 0xE0, CHR 0xB8, CHR 0x9C, CHR 0xE0, CHR 0xB9,
        CHR 0x88, CHR 0xE0, CHR 0xB8, CHR 0xB2, CHR 0xE0, CHR 0xB8, CHR 0x99],
      ''m'' @ [CHR 0xE1, CHR 0xBA, CHR 0xAD] @ ''t kh'' @ [CHR 0xE1, CHR 0xBA, CHR 0xA9] @ ''u'']"

definition hasTerm :: "lower_case \<Rightarrow> string \<Rightarrow> string list \<Rightarrow> bool" where
  "hasTerm lower str terms = list_ex (\<lambda>t. includes_js (norm lower str) t) terms"

definition scoreUsernameInput :: "lower_case \<Rightarrow> element \<Rightarrow> int" where
  "scoreUsernameInput lower el =
     (let type = norm lower (el_type el);
          s1 = (if type = ''email'' \<or> type = ''text'' \<or> type = [] then 2 else 0);
          nameId = norm lower (el_name el) @ '' '' @ norm lower (el_id el);
          placeholder = norm lower (el_placeholder el);
          aria = (case el_ariaLabel el of None \<Rightarrow> [] | Some a \<Rightarrow> norm lower a);
          s2 = (if hasTerm lower nameId USER_TERMS_content then s1 + 6 else s1);
          s3 = (if hasTerm lower placeholder USER_TERMS_content then s2 + 4 else s2);
          s4 = (if hasTerm lower aria USER_TERMS_content then s3 + 4 else s3);
          ac = norm lower (el_autocomplete el);
          s5 = (if ac = ''username'' \<or> ac = ''email'' then s4 + 6 else s4)
      in if type = ''email'' then s5 + 3 else s5)"

definition scorePasswordInput :: "lower_case \<Rightarrow> element \<Rightarrow> int" where
  "scorePasswordInput lower el =
     (let type = norm lower (el_type el);
          s1 = (if type = ''password'' then 8 else 0);
          nameId = norm lower (el_name el) @ '' '' @ norm lower (el_id el);
          placeholder = norm lower (el_placeholder el);
          aria = (case el_ariaLabel el of None \<Rightarrow> [] | Some a \<Rightarrow> norm lower a);
          s2 = (if hasTerm lower nameId PASS_TERMS_content then s1 + 5 else s1);
          s3 = (if hasTerm lower placeholder PASS_TERMS_content then s2 + 4 else s2);
          s4 = (if hasTerm lower aria PASS_TERMS_content then s3 + 4 else s3);
          ac = norm lower (el_autocomplete el)
      in if includes_js ac ''password'' then s4 + 6 else s4)"

text \<open>
  \<open>form.querySelectorAll('input[type="email"], input[type="text"], input:not([type])')\<close>:
  the inputs of the root that lie within the form and whose \<open>type\<close> attribute is missing
  or, compared without regard to ASCII case as selectors do for this attribute, is
  \<open>email\<close> or \<open>text\<close>.
\<close>

definition textLike :: "element \<Rightarrow> bool" where
  "textLike el =
     (case el_typeAttr el of
        None \<Rightarrow> True
      | Some v \<Rightarrow> asciiLower v = ''email'' \<or> asciiLower v = ''text'')"

definition candidates :: "nat \<Rightarrow> root \<Rightarrow> element list" where
  "candidates form inputs = filter (\<lambda>c. List.member (el_within c) form \<and> textLike c) inputs"

definition findBestInputs_content ::
  "lower_case \<Rightarrow> root \<Rightarrow> element option \<times> element option" where
  "findBestInputs_content lower inputs =
     (case bestLoop (scorePasswordInput lower) inputs None (- 1) of
        (passBest, passScore) \<Rightarrow>
          (case bestLoop (scoreUsernameInput lower) inputs None (- 1) of
             (userBest, userScore) \<Rightarrow>
               (case (passBest, userBest) of
                  (Some pb, Some ub) \<Rightarrow>
                    (case (el_form pb, el_form ub) of
                       (Some pf, Some uf) \<Rightarrow>
                         if pf \<noteq> uf then
                           (case bestLoop (scoreUsernameInput lower) (candidates pf inputs) None (- 1) of
                              (Some best, bestScore) \<Rightarrow>
                                if bestScore \<ge> max 3 (userScore - 2) then (Some best, passBest)
                                else (userBest, passBest)
                            | (None, bestScore) \<Rightarrow> (userBest, passBest))
                         else (userBest, passBest)
                     | _ \<Rightarrow> (userBest, passBest))
                | _ \<Rightarrow> (userBest, passBest))))"

text \<open>
  \<open>fillBothIfPresent\<close>: the flag \<open>any\<close> is shared by all roots, and the submit
  control that \<open>findSubmitButton\<close> returns is clicked whenever there is one.
\<close>

fun fillBothIfPresentRoots ::
  "lower_case \<Rightarrow> page \<Rightarrow> string \<Rightarrow> string \<Rightarrow> root list \<Rightarrow> bool \<Rightarrow> bool \<times> effect list" where
  "fillBothIfPresentRoots lower pg u p [] any = (False, [])"
| "fillBothIfPresentRoots lower pg u p (r # roots) any =
     (case findBestInputs_content lower r of
        (userBest, passBest) \<Rightarrow>
          let setUser = (case userBest of None \<Rightarrow> [] | Some ub \<Rightarrow>
                           if u \<noteq> [] then [SetVal (el_node ub) u] else []);
              setPass = (case passBest of None \<Rightarrow> [] | Some pb \<Rightarrow>
                           if p \<noteq> [] then [SetVal (el_node pb) p] else []);
              any' = (any \<or> setUser \<noteq> [] \<or> setPass \<noteq> [])
          in
            (case passBest of
               None \<Rightarrow>
                 (case fillBothIfPresentRoots lower pg u p roots any' of
                    (res, es) \<Rightarrow> (res, setUser @ setPass @ es))
             | Some pb \<Rightarrow>
                 if any' then
                   (True, setUser @ setPass
                      @ (case pg_submitNear pg (el_node pb) of
                           None \<Rightarrow> []
                         | Some submit \<Rightarrow> [Click submit]))
                 else
                   (case fillBothIfPresentRoots lower pg u p roots any' of
                      (res, es) \<Rightarrow> (res, setUser @ setPass @ es))))"

definition fillBothIfPresent ::
  "lower_case \<Rightarrow> page \<Rightarrow> string \<Rightarrow> string \<Rightarrow> bool \<times> effect list" where
  "fillBothIfPresent lower pg u p = fillBothIfPresentRoots lower pg u p (allRoots pg) False"

text \<open>
  \<open>tryAutofillNormal\<close>: the interval callback counts its attempts and clears the
  interval on success or after 400 attempts; the observer callback calls
  \<open>fillBothIfPresent\<close> on every mutation and stays connected until the page unloads,
  so the time-out of the other script's observer changes nothing here.
\<close>

record autofill =
  af_attempts :: nat
  af_intervalSet :: bool

fun stepNormal_content ::
  "lower_case \<Rightarrow> creds \<Rightarrow> autofill \<Rightarrow> trigger \<Rightarrow> autofill \<times> effect list" where
  "stepNormal_content lower c af (Tick pg) =
     (if \<not> af_intervalSet af then (af, [])
      else
        (case fillBothIfPresent lower pg (creds_u c) (creds_p c) of
           (filled, es) \<Rightarrow>
             if filled
             then (af\<lparr>af_attempts := af_attempts af + 1, af_intervalSet := False\<rparr>,
                   es @ [Send ClearCreds])
             else if af_attempts af + 1 \<ge> 400
             then (af\<lparr>af_attempts := af_attempts af + 1, af_intervalSet := False\<rparr>, es)
             else (af\<lparr>af_attempts := af_attempts af + 1\<rparr>, es)))"
| "stepNormal_content lower c af (Mutation pg) =
     (af, snd (fillBothIfPresent lower pg (creds_u c) (creds_p c)))"
| "stepNormal_content lower c af ObserverTimeout = (af, [])"

fun runNormal_content ::
  "lower_case \<Rightarrow> creds \<Rightarrow> autofill \<Rightarrow> trigger list \<Rightarrow> autofill \<times> effect list" where
  "runNormal_content lower c af [] = (af, [])"
| "runNormal_content lower c af (t # ts) =
     (case stepNormal_content lower c af t of
        (af', es) \<Rightarrow> (case runNormal_content lower c af' ts of (af'', es') \<Rightarrow> (af'', es @ es')))"

definition tryAutofillNormal ::
  "lower_case \<Rightarrow> creds \<Rightarrow> trigger list \<Rightarrow> autofill \<times> effect list" where
  "tryAutofillNormal lower c ts = runNormal_content lower c \<lparr>af_attempts = 0, af_intervalSet = True\<rparr> ts"

section \<open>Notions used in the statements\<close>

text \<open>The number of colons of a string at positions other than the first.\<close>

definition nonLeadingColons :: "string \<Rightarrow> nat" where
  "nonLeadingColons s = length (filter (\<lambda>c. c = CHR '':'') (tl s))"

text \<open>
  The answers of the host's \<open>URL\<close> class on the addresses of the examples: the
  serialised address and the origin.
\<close>

definition exampleURL :: url_class where
  "exampleURL =
     [''https://example.com'' \<mapsto>
        \<lparr>url_href = ''https://example.com/'', url_origin = ''https://example.com''\<rparr>,
      ''https://example.com/'' \<mapsto>
        \<lparr>url_href = ''https://example.com/'', url_origin = ''https://example.com''\<rparr>,
      ''https://shop.test/login'' \<mapsto>
        \<lparr>url_href = ''https://shop.test/login'', url_origin = ''https://shop.test''\<rparr>,
      ''https://https'' \<mapsto>
        \<lparr>url_href = ''https://https/'', url_origin = ''https://https''\<rparr>]"

text \<open>
  The answers of the host's \<open>toLowerCase\<close> on the strings of the examples: the
  Russian word for error and the Portuguese word for user, written with capitals, and ASCII
  text, which it maps as \<open>asciiLower\<close> does.
\<close>

definition exampleLower :: lower_case where
  "exampleLower s =
     (case map_of
             [([CHR 0xD0, CHR 0x9E, CHR 0xD1, CHR 0x88, CHR 0xD0, CHR 0xB8, CHR 0xD0, CHR 0xB1,
                CHR 0xD0, CHR 0xBA, CHR 0xD0, CHR 0xB0],
               [CHR 0xD0, CHR 0xBE, CHR 0xD1, CHR 0x88, CHR 0xD0, CHR 0xB8, CHR 0xD0, CHR 0xB1,
                CHR 0xD0, CHR 0xBA, CHR 0xD0, CHR 0xB0]),
              (''USU'' @ [CHR 0xC3, CHR 0x81] @ ''RIO'', ''usu'' @ [CHR 0xC3, CHR 0xA1] @ ''rio'')]
             s of
        Some l \<Rightarrow> l
      | None \<Rightarrow> asciiLower s)"

text \<open>The number of messages to the coordinator among the effects.\<close>

definition sends :: "effect list \<Rightarrow> nat" where
  "sends es = length (filter (\<lambda>e. case e of Send m \<Rightarrow> True | _ \<Rightarrow> False) es)"

text \<open>
  What a fill function may do besides setting values: nothing, or, with the gate open, one
  click that is recorded.  It sends nothing.
\<close>

definition clicked :: "page \<Rightarrow> content \<Rightarrow> content \<Rightarrow> effect list \<Rightarrow> bool" where
  "clicked pg cs cs' es =
     (sends es = 0
      \<and> ((cs' = cs \<and> clicks es = 0)
         \<or> (canAutoSubmit pg cs \<and> cs' = recordSubmit pg cs \<and> clicks es = 1)))"

text \<open>What one callback may do to the governor.\<close>

definition governed :: "page \<Rightarrow> content \<Rightarrow> content \<Rightarrow> effect list \<Rightarrow> bool" where
  "governed pg cs cs' es =
     (autoSubmit cs' = autoSubmit cs
      \<and> submittedCount cs' = submittedCount cs + clicks es
      \<and> clicks es \<le> 1
      \<and> (0 < clicks es \<longrightarrow> canAutoSubmit pg cs))"

text \<open>
  The pages of the examples.  \<open>loginPage\<close> is a form with a text field named
  \<open>username\<close>, a password field and a submit button (node 9);
  \<open>usernameOnlyPage\<close> is the first page of a login in two steps, with the text field
  and the button only; \<open>rejectedPage\<close> is the login page showing an error text, and
  \<open>rejectedPageRu\<close> shows the Russian word for error, with a capital letter, instead.
\<close>

definition userField :: element where
  "userField =
     \<lparr>el_node = 1, el_typeAttr = Some ''text'', el_name = ''username'', el_id = [],
      el_placeholder = [], el_ariaLabel = None, el_autocomplete = [], el_form = Some 7,
      el_within = [7]\<rparr>"

definition passField :: element where
  "passField =
     \<lparr>el_node = 2, el_typeAttr = Some ''password'', el_name = ''password'', el_id = [],
      el_placeholder = [], el_ariaLabel = None, el_autocomplete = [], el_form = Some 7,
      el_within = [7]\<rparr>"

definition loginPage :: page where
  "loginPage =
     \<lparr>pg_document = [userField, passField], pg_shadowRoots = [], pg_frames = [],
      pg_bodyText = Some ''Sign in to your account'', pg_href = ''https://shop.test/login'',
      pg_now = 1000, pg_submitNear = (\<lambda>n. Some 9)\<rparr>"

definition usernameOnlyPage :: page where
  "usernameOnlyPage =
     \<lparr>pg_document = [userField], pg_shadowRoots = [], pg_frames = [],
      pg_bodyText = Some ''Sign in to your account'', pg_href = ''https://shop.test/login'',
      pg_now = 1000, pg_submitNear = (\<lambda>n. Some 9)\<rparr>"

definition rejectedPage :: page where
  "rejectedPage =
     \<lparr>pg_document = [userField, passField], pg_shadowRoots = [], pg_frames = [],
      pg_bodyText = Some ''Incorrect password'', pg_href = ''https://shop.test/login'',
      pg_now = 2000, pg_submitNear = (\<lambda>n. Some 9)\<rparr>"

definition rejectedPageRu :: page where
  "rejectedPageRu =
     \<lparr>pg_document = [userField, passField], pg_shadowRoots = [], pg_frames = [],
      pg_bodyText =
        Some [CHR 0xD0, CHR 0x9E, CHR 0xD1, CHR 0x88, CHR 0xD0, CHR 0xB8, CHR 0xD0, CHR 0xB1,
              CHR 0xD0, CHR 0xBA, CHR 0xD0, CHR 0xB0],
      pg_href = ''https://shop.test/login'', pg_now = 2000, pg_submitNear = (\<lambda>n. Some 9)\<rparr>"

definition exampleCreds :: creds where
  "exampleCreds =
     \<lparr>creds_u = ''alice'', creds_p = ''s3cr3t'', creds_twoStep = False, creds_stage = ''init''\<rparr>"

text \<open>
  A coordinator holding the credentials armed for tab 5, and a content script in that tab
  as the sender of a message.
\<close>

definition exampleCoordinator :: coordinator where
  "exampleCoordinator =
     \<lparr>credsByTab = [5 \<mapsto> exampleCreds], rawHrefPerTab = Map.empty,
      failUntilByOrigin = Map.empty\<rparr>"

definition exampleSender :: sender where
  "exampleSender = \<lparr>sender_tabId = Some 5, sender_url = Some ''https://shop.test/login''\<rparr>"

text \<open>A click on the menu entry \<open>cl-open\<close> with a colon-link selected.\<close>

definition exampleClick :: click_info where
  "exampleClick =
     \<lparr>menuItemId = ''cl-open'',
      selectionText = Some ''https://shop.test/login:bob%40x.com:p%40ss'', linkUrl = None\<rparr>"

text \<open>
  The first element, in document order, whose score no element of the list exceeds.
\<close>

definition firstBest :: "(element \<Rightarrow> int) \<Rightarrow> element list \<Rightarrow> element option" where
  "firstBest score els = List.find (\<lambda>e. list_all (\<lambda>x. score x \<le> score e) els) els"

text \<open>
  More fields for the examples: a telephone field named \<open>login\<close> with the autofill hint
  \<open>username\<close> and a search field, both in form 8, and an e-mail field and a text field
  without any hint in form 7, the form of \<open>passField\<close>; the e-mail field of a
  newsletter in form 8 and, in form 7, a text field whose placeholder and label read
  \<open>Username\<close>; a text field in form 8 whose name is the Portuguese word for user in
  capitals and whose placeholder is \<open>E-MAIL\<close> and, in form 7, an e-mail field named
  \<open>x\<close>.
\<close>

definition otherField :: element where
  "otherField =
     \<lparr>el_node = 3, el_typeAttr = Some ''tel'', el_name = ''login'', el_id = [],
      el_placeholder = [], el_ariaLabel = None, el_autocomplete = ''username'',
      el_form = Some 8, el_within = [8]\<rparr>"

definition emailField :: element where
  "emailField =
     \<lparr>el_node = 4, el_typeAttr = Some ''email'', el_name = ''email'', el_id = [],
      el_placeholder = [], el_ariaLabel = None, el_autocomplete = [], el_form = Some 7,
      el_within = [7]\<rparr>"

definition searchField :: element where
  "searchField =
     \<lparr>el_node = 5, el_typeAttr = Some ''text'', el_name = ''q'', el_id = [],
      el_placeholder = [], el_ariaLabel = None, el_autocomplete = [], el_form = Some 8,
      el_within = [8]\<rparr>"

definition plainField :: element where
  "plainField =
     \<lparr>el_node = 6, el_typeAttr = Some ''text'', el_name = ''who'', el_id = [],
      el_placeholder = [], el_ariaLabel = None, el_autocomplete = [], el_form = Some 7,
      el_within = [7]\<rparr>"

definition newsletterField :: element where
  "newsletterField =
     \<lparr>el_node = 10, el_typeAttr = Some ''email'', el_name = ''email'', el_id = [],
      el_placeholder = [], el_ariaLabel = None, el_autocomplete = [], el_form = Some 8,
      el_within = [8]\<rparr>"

definition labelledField :: element where
  "labelledField =
     \<lparr>el_node = 11, el_typeAttr = Some ''text'', el_name = ''f1'', el_id = [],
      el_placeholder = ''Username'', el_ariaLabel = Some ''Username'', el_autocomplete = [],
      el_form = Some 7, el_within = [7]\<rparr>"

definition usuarioField :: element where
  "usuarioField =
     \<lparr>el_node = 12, el_typeAttr = Some ''text'',
      el_name = ''USU'' @ [CHR 0xC3, CHR 0x81] @ ''RIO'', el_id = [],
      el_placeholder = ''E-MAIL'', el_ariaLabel = None, el_autocomplete = [],
      el_form = Some 8, el_within = [8]\<rparr>"

definition shortField :: element where
  "shortField =
     \<lparr>el_node = 13, el_typeAttr = Some ''email'', el_name = ''x'', el_id = [],
      el_placeholder = [], el_ariaLabel = None, el_autocomplete = [], el_form = Some 7,
      el_within = [7]\<rparr>"

section \<open>LinkParser: strings with fewer than two colons\<close>

lemma lastIndexUpTo_sound:
  "0 \<le> lastIndexUpTo s c k \<Longrightarrow>
     nat (lastIndexUpTo s c k) < length s \<and> s ! nat (lastIndexUpTo s c k) = c
       \<and> lastIndexUpTo s c k \<le> int k"
  by (induction k) (auto split: if_splits simp: nat_add_distrib)

lemma two_occurrences:
  assumes "i < j" "j < length xs" "xs ! i = c" "xs ! j = c"
  shows "2 \<le> length (filter (\<lambda>x. x = c) xs)"
proof -
  have split: "xs = take j xs @ drop j xs"
    by simp
  have "c \<in> set (take j xs)"
    using assms by (metis in_set_conv_nth length_take min_less_iff_conj nth_take order_less_trans)
  then have a: "1 \<le> length (filter (\<lambda>x. x = c) (take j xs))"
    by (metis (mono_tags, lifting) One_nat_def Suc_leI filter_empty_conv length_greater_0_conv)
  have "c \<in> set (drop j xs)"
    using assms by (metis Cons_nth_drop_Suc list.set_intros(1))
  then have b: "1 \<le> length (filter (\<lambda>x. x = c) (drop j xs))"
    by (metis (mono_tags, lifting) One_nat_def Suc_leI filter_empty_conv length_greater_0_conv)
  have "length (filter (\<lambda>x. x = c) xs)
          = length (filter (\<lambda>x. x = c) (take j xs)) + length (filter (\<lambda>x. x = c) (drop j xs))"
    by (subst split) (simp only: filter_append length_append)
  with a b show ?thesis by linarith
qed

lemma two_colons_found:
  assumes last: "0 < lastIndexOf s c"
    and prev: "0 < lastIndexOfFrom s c (lastIndexOf s c - 1)"
  shows "2 \<le> length (filter (\<lambda>x. x = c) (tl s))"
proof -
  define l where "l = lastIndexOf s c"
  define k where "k = nat (min (max (l - 1) 0) (int (length s) - 1))"
  define p where "p = lastIndexUpTo s c k"
  have p_eq: "lastIndexOfFrom s c (lastIndexOf s c - 1) = p"
    by (simp add: lastIndexOfFrom_def p_def k_def l_def)
  have "0 \<le> lastIndexUpTo s c (length s - 1)"
    using last by (simp add: lastIndexOf_def)
  then have l: "nat l < length s" "s ! nat l = c"
    using lastIndexUpTo_sound [of s c "length s - 1"] by (simp_all add: l_def lastIndexOf_def)
  have "0 \<le> lastIndexUpTo s c k"
    using prev p_eq p_def by simp
  then have p: "nat p < length s" "s ! nat p = c" "p \<le> int k"
    using lastIndexUpTo_sound [of s c k] by (simp_all add: p_def)
  have "0 < l" "0 < p"
    using last prev p_eq by (simp_all add: l_def)
  then have "p \<le> l - 1"
    using p(3) by (cases "s = []") (auto simp: k_def)
  have "nat p - 1 < nat l - 1" "nat l - 1 < length (tl s)"
    using \<open>0 < l\<close> \<open>0 < p\<close> \<open>p \<le> l - 1\<close> l(1) by auto
  moreover have "tl s ! (nat p - 1) = c" "tl s ! (nat l - 1) = c"
    using \<open>0 < l\<close> \<open>0 < p\<close> p l by (simp_all add: nth_tl)
  ultimately show ?thesis
    by (rule two_occurrences)
qed

lemma stripLeading_suffix: "\<exists>a. s = a @ stripLeading ws s"
proof (induction ws s rule: stripLeading.induct)
  case (1 ws s)
  show ?case
  proof (cases "leading ws s")
    case None
    then have "stripLeading ws s = s"
      by (simp add: stripLeading.simps [of ws s])
    then show ?thesis by simp
  next
    case (Some w)
    then have eq: "stripLeading ws s = stripLeading ws (drop (length w) s)"
      by (simp add: stripLeading.simps [of ws s])
    from 1 Some obtain a where "drop (length w) s = a @ stripLeading ws (drop (length w) s)"
      by blast
    then have "s = (take (length w) s @ a) @ stripLeading ws (drop (length w) s)"
      by (metis append.assoc append_take_drop_id)
    with eq show ?thesis
      by metis
  qed
qed

lemma trim_infix: "\<exists>a b. raw = a @ trim raw @ b"
proof -
  obtain a where a: "raw = a @ trimStart raw"
    unfolding trimStart_def using stripLeading_suffix by blast
  obtain r where "rev (trimStart raw) = r @ stripLeading (map rev whiteSpace) (rev (trimStart raw))"
    using stripLeading_suffix by blast
  then have "trimStart raw = trim raw @ rev r"
    unfolding trim_def trimEnd_def by (metis rev_append rev_rev_ident)
  with a show ?thesis by metis
qed

lemma nonLeadingColons_infix: "nonLeadingColons t \<le> nonLeadingColons (a @ t @ b)"
proof (cases a)
  case Nil
  then show ?thesis by (cases t) (simp_all add: nonLeadingColons_def)
next
  case (Cons x xs)
  have "length (filter (\<lambda>c. c = CHR '':'') (tl t)) \<le> length (filter (\<lambda>c. c = CHR '':'') t)"
    by (cases t) simp_all
  with Cons show ?thesis by (simp add: nonLeadingColons_def)
qed

lemma nonLeadingColons_trim: "nonLeadingColons (trim raw) \<le> nonLeadingColons raw"
  using trim_infix [of raw] nonLeadingColons_infix by metis

text \<open>
  Claim C9.  A string with fewer than two colons at positions other than the first is not a
  link: \<open>parseColonLink\<close> and \<open>parseColonLinkFlexible\<close> both return \<open>null\<close>,
  whatever the host's \<open>URL\<close> class answers, and neither has an error outcome.
\<close>

theorem fewer_than_two_colons_not_a_link:
  assumes "nonLeadingColons raw < 2"
  shows "parseColonLink URL raw = None \<and> parseColonLinkFlexible URL raw = None"
proof
  have "nonLeadingColons (trim raw) < 2"
    using assms nonLeadingColons_trim [of raw] by linarith
  then have "lastIndexOf (trim raw) CHR '':'' \<le> 0
      \<or> lastIndexOfFrom (trim raw) CHR '':'' (lastIndexOf (trim raw) CHR '':'' - 1) \<le> 0"
    using two_colons_found [of "trim raw" "CHR '':''"] by (fastforce simp: nonLeadingColons_def)
  then show "parseColonLink URL raw = None"
    by (auto simp: parseColonLink_def Let_def)
next
  have "lastIndexOf raw CHR '':'' \<le> 0
      \<or> lastIndexOfFrom raw CHR '':'' (lastIndexOf raw CHR '':'' - 1) \<le> 0"
    using assms two_colons_found [of raw "CHR '':''"] by (fastforce simp: nonLeadingColons_def)
  then show "parseColonLinkFlexible URL raw = None"
    by (auto simp: parseColonLinkFlexible_def Let_def)
qed

theorem fewer_than_two_colons_witness:
  "nonLeadingColons ''example.com:alice'' < 2
     \<and> parseColonLink exampleURL ''example.com:alice'' = None
     \<and> parseColonLinkFlexible exampleURL ''example.com:alice'' = None"
proof -
  have one: "nonLeadingColons ''example.com:alice'' < 2"
    by (simp add: nonLeadingColons_def)
  show ?thesis
    using one fewer_than_two_colons_not_a_link [OF one, of exampleURL] by simp
qed

section \<open>LinkParser: the two-colon grammar\<close>

text \<open>
  On a string \<open>base:user:pass\<close> whose last two segments hold no colon, the indices the
  parsers compute are the positions of the two separating colons, so both parsers are
  functions of the three segments.
\<close>

lemma lastIndexUpTo_found:
  "c \<notin> set us \<Longrightarrow> length xs \<le> k \<Longrightarrow> k \<le> length xs + length us
     \<Longrightarrow> lastIndexUpTo (xs @ c # us @ rest) c k = int (length xs)"
proof (induction k)
  case 0
  then show ?case by simp
next
  case (Suc k)
  show ?case
  proof (cases "Suc k = length xs")
    case True
    then have "length xs = Suc k" by simp
    then show ?thesis by (simp add: nth_append)
  next
    case False
    with Suc.prems have k: "length xs \<le> k" "k \<le> length xs + length us"
      by simp_all
    have "Suc k - length xs - 1 < length us"
      using Suc.prems False by simp
    then have "us ! (Suc k - length xs - 1) \<in> set us"
      by (rule nth_mem)
    then have "(xs @ c # us @ rest) ! Suc k \<noteq> c"
      using Suc.prems False \<open>Suc k - length xs - 1 < length us\<close>
      by (auto simp: nth_append nth_Cons split: nat.splits)
    then show ?thesis
      using Suc.IH [OF Suc.prems(1) k] by simp
  qed
qed

lemma colon_indices:
  fixes base user pass :: string
  defines "href \<equiv> base @ CHR '':'' # user @ CHR '':'' # pass"
  assumes "CHR '':'' \<notin> set user" "CHR '':'' \<notin> set pass"
  shows "lastIndexOf href CHR '':'' = int (length base + 1 + length user)"
    and "lastIndexOfFrom href CHR '':'' (lastIndexOf href CHR '':'' - 1) = int (length base)"
proof -
  have "lastIndexUpTo ((base @ CHR '':'' # user) @ CHR '':'' # pass @ []) CHR '':''
          (length href - 1) = int (length (base @ CHR '':'' # user))"
    by (rule lastIndexUpTo_found) (simp_all add: assms href_def)
  then show last: "lastIndexOf href CHR '':'' = int (length base + 1 + length user)"
    by (simp add: lastIndexOf_def href_def)
  have found: "lastIndexUpTo (base @ CHR '':'' # user @ (CHR '':'' # pass)) CHR '':''
          (length base + length user) = int (length base)"
    by (rule lastIndexUpTo_found) (simp_all add: assms)
  have "min (max (lastIndexOf href CHR '':'' - 1) 0) (int (length href) - 1)
          = int (length base + length user)"
    by (simp add: last) (simp add: href_def)
  then have "lastIndexOfFrom href CHR '':'' (lastIndexOf href CHR '':'' - 1)
          = lastIndexUpTo href CHR '':'' (length base + length user)"
    unfolding lastIndexOfFrom_def by (simp only: nat_int)
  with found show "lastIndexOfFrom href CHR '':'' (lastIndexOf href CHR '':'' - 1) = int (length base)"
    by (simp add: href_def)
qed

lemma segments:
  "slice (base @ CHR '':'' # user @ CHR '':'' # pass) 0 (length base) = base"
  "slice (base @ CHR '':'' # user @ CHR '':'' # pass) (length base + 1) (length base + 1 + length user) = user"
  "sliceFrom (base @ CHR '':'' # user @ CHR '':'' # pass) (length base + 1 + length user + 1) = pass"
  by (simp_all add: slice_def sliceFrom_def)

lemma parseColonLinkFlexible_grammar:
  assumes "CHR '':'' \<notin> set user" "CHR '':'' \<notin> set pass"
  shows "parseColonLinkFlexible URL (base @ CHR '':'' # user @ CHR '':'' # pass) =
     (if base = [] then None
      else
        (case URL (if hasSchemePrefix (trim base) then trim base else ''https://'' @ trim base) of
           None \<Rightarrow> None
         | Some url \<Rightarrow>
             Some \<lparr>link_url = url_href url, link_u = decodeOrKeep (trim user),
                   link_p = decodeOrKeep (trim pass)\<rparr>))"
  using colon_indices [OF assms, of base] segments [of base user pass]
  by (simp add: parseColonLinkFlexible_def Let_def nat_add_distrib)

lemma parseColonLink_grammar:
  assumes "CHR '':'' \<notin> set user" "CHR '':'' \<notin> set pass"
    and "trim raw = base @ CHR '':'' # user @ CHR '':'' # pass"
  shows "parseColonLink URL raw =
     (if base = [] \<or> isBareScheme (trim base) then None
      else
        (case URL (if hasSchemePrefix (trim base) then trim base else ''https://'' @ trim base) of
           None \<Rightarrow> None
         | Some url \<Rightarrow>
             Some \<lparr>link_url = url_href url, link_u = decodeOrKeep (trim user),
                   link_p = decodeOrKeep (trim pass)\<rparr>))"
proof -
  have "raw \<noteq> []"
  proof
    assume "raw = []"
    then have "trim raw = []"
      by (simp add: trim_def trimStart_def trimEnd_def stripLeading.simps [of _ "[]"] leading_def
            whiteSpace_def)
    with assms(3) show False by simp
  qed
  then show ?thesis
    using colon_indices [OF assms(1,2), of base] segments [of base user pass] assms(3)
    by (simp add: parseColonLink_def Let_def nat_add_distrib)
qed


text \<open>
  \<open>parseColonLink\<close> of the service worker with the cooldown refuses a base that is the
  bare token \<open>http\<close> or \<open>https\<close>, in any case of the letters.
\<close>

lemma parseColonLink_rejects_bare_scheme:
  assumes "CHR '':'' \<notin> set user" "CHR '':'' \<notin> set pass"
    and "trim raw = base @ CHR '':'' # user @ CHR '':'' # pass"
    and "isBareScheme (trim base)"
  shows "parseColonLink URL raw = None"
  using parseColonLink_grammar [OF assms(1,2,3), of URL] assms(4) by simp

text \<open>
  Claim C7.  \<open>parseColonLinkFlexible\<close> of \<open>background.js\<close> has no test for a bare
  scheme: on the address \<open>https://example.com:8080/\<close>, whose two right-most colons
  leave the base \<open>https\<close>, it prefixes the token with \<open>https://\<close> and returns a
  link to \<open>https://https/\<close>; likewise on \<open>https:user:pass\<close>.
\<close>

theorem flexible_parser_accepts_bare_scheme:
  "isBareScheme (trim ''https'')
     \<and> parseColonLinkFlexible exampleURL (''https'' @ CHR '':'' # ''//example.com'' @ CHR '':'' # ''8080/'')
         = Some \<lparr>link_url = ''https://https/'', link_u = ''//example.com'', link_p = ''8080/''\<rparr>
     \<and> parseColonLinkFlexible exampleURL ''https:user:pass''
         = Some \<lparr>link_url = ''https://https/'', link_u = ''user'', link_p = ''pass''\<rparr>"
  unfolding exampleURL_def by code_simp

text \<open>
  Conversely, whatever either parser accepts has this form: the string splits at its two
  last colons into a base that is not empty and two segments without a colon.
\<close>

lemma lastIndexUpTo_maximal:
  "lastIndexUpTo s c k < int i \<Longrightarrow> i \<le> k \<Longrightarrow> i < length s \<Longrightarrow> s ! i \<noteq> c"
proof (induction k)
  case 0
  then show ?case by (auto split: if_splits)
next
  case (Suc k)
  show ?case
  proof (cases "i = Suc k")
    case True
    with Suc.prems show ?thesis by (auto split: if_splits)
  next
    case False
    with Suc.prems have "i \<le> k" by simp
    moreover from Suc.prems(1,2) have "lastIndexUpTo s c k < int i"
      by (auto split: if_splits)
    ultimately show ?thesis
      using Suc.IH Suc.prems(3) by blast
  qed
qed

lemma two_colons_split:
  assumes last: "0 < lastIndexOf href c"
    and prev: "0 < lastIndexOfFrom href c (lastIndexOf href c - 1)"
  defines "l \<equiv> nat (lastIndexOf href c)"
    and "p \<equiv> nat (lastIndexOfFrom href c (lastIndexOf href c - 1))"
  shows "href = slice href 0 p @ c # slice href (p + 1) l @ c # sliceFrom href (l + 1)"
    and "slice href 0 p \<noteq> []"
    and "c \<notin> set (slice href (p + 1) l)"
    and "c \<notin> set (sliceFrom href (l + 1))"
proof -
  define k where "k = nat (min (max (lastIndexOf href c - 1) 0) (int (length href) - 1))"
  have pk: "lastIndexOfFrom href c (lastIndexOf href c - 1) = lastIndexUpTo href c k"
    by (simp add: lastIndexOfFrom_def k_def)
  have "0 \<le> lastIndexUpTo href c (length href - 1)"
    using last by (simp add: lastIndexOf_def)
  from lastIndexUpTo_sound [OF this] have l: "l < length href" "href ! l = c"
    by (simp_all add: l_def lastIndexOf_def)
  have "0 \<le> lastIndexUpTo href c k"
    using prev pk by simp
  from lastIndexUpTo_sound [OF this] have p: "p < length href" "href ! p = c" "int p \<le> int k"
    using prev by (simp_all add: p_def pk)
  have "0 < l" "0 < p"
    using last prev by (simp_all add: l_def p_def)
  have kl: "k = l - 1"
    using l(1) \<open>0 < l\<close> last by (simp add: k_def l_def)
  with p(3) \<open>0 < l\<close> have "p < l" by simp
  have after: "href ! i \<noteq> c" if "l < i" "i < length href" for i
  proof (rule lastIndexUpTo_maximal [of href c "length href - 1"])
    show "lastIndexUpTo href c (length href - 1) < int i"
      using that last by (simp add: l_def lastIndexOf_def)
  qed (use that in simp_all)
  have between: "href ! i \<noteq> c" if "p < i" "i < l" for i
  proof (rule lastIndexUpTo_maximal [of href c k])
    show "lastIndexUpTo href c k < int i"
      using that prev by (simp add: p_def pk)
  qed (use that l kl in simp_all)
  show "slice href 0 p \<noteq> []"
    using \<open>0 < p\<close> p(1) by (auto simp: slice_def)
  show "c \<notin> set (sliceFrom href (l + 1))"
    using after by (auto simp: sliceFrom_def in_set_conv_nth)
  show "c \<notin> set (slice href (p + 1) l)"
  proof
    assume "c \<in> set (slice href (p + 1) l)"
    then obtain j where "j < l - (p + 1)" "take (l - (p + 1)) (drop (p + 1) href) ! j = c"
      using l(1) by (auto simp: slice_def in_set_conv_nth)
    then have "href ! (p + 1 + j) = c" "p < p + 1 + j" "p + 1 + j < l"
      using l(1) by simp_all
    with between show False by blast
  qed
  have "href = take p href @ href ! p # drop (Suc p) href"
    using p(1) by (rule id_take_nth_drop)
  moreover have "drop (Suc p) href
      = take (l - Suc p) (drop (Suc p) href) @ drop (l - Suc p) (drop (Suc p) href)"
    by (rule append_take_drop_id [symmetric])
  moreover have "drop (l - Suc p) (drop (Suc p) href) = drop l href"
    using \<open>p < l\<close> by (simp only: drop_drop) simp
  moreover have "drop l href = href ! l # drop (Suc l) href"
    using l(1) by (simp add: Cons_nth_drop_Suc)
  ultimately have "href = take p href @ href ! p # take (l - Suc p) (drop (Suc p) href)
      @ href ! l # drop (Suc l) href"
    by metis
  then show "href = slice href 0 p @ c # slice href (p + 1) l @ c # sliceFrom href (l + 1)"
    using p(2) l(2) by (simp add: slice_def sliceFrom_def)
qed

lemma every_link_has_three_segments:
  "parseColonLink URL raw = Some link \<Longrightarrow>
     \<exists>base user pass. trim raw = base @ CHR '':'' # user @ CHR '':'' # pass
        \<and> base \<noteq> [] \<and> CHR '':'' \<notin> set user \<and> CHR '':'' \<notin> set pass"
  "parseColonLinkFlexible URL raw = Some link \<Longrightarrow>
     \<exists>base user pass. raw = base @ CHR '':'' # user @ CHR '':'' # pass
        \<and> base \<noteq> [] \<and> CHR '':'' \<notin> set user \<and> CHR '':'' \<notin> set pass"
proof -
  assume "parseColonLink URL raw = Some link"
  then have "0 < lastIndexOf (trim raw) CHR '':''"
    "0 < lastIndexOfFrom (trim raw) CHR '':'' (lastIndexOf (trim raw) CHR '':'' - 1)"
    by (auto simp: parseColonLink_def Let_def split: if_splits)
  from two_colons_split [OF this]
  show "\<exists>base user pass. trim raw = base @ CHR '':'' # user @ CHR '':'' # pass
        \<and> base \<noteq> [] \<and> CHR '':'' \<notin> set user \<and> CHR '':'' \<notin> set pass"
    by blast
next
  assume "parseColonLinkFlexible URL raw = Some link"
  then have "0 < lastIndexOf raw CHR '':''"
    "0 < lastIndexOfFrom raw CHR '':'' (lastIndexOf raw CHR '':'' - 1)"
    by (auto simp: parseColonLinkFlexible_def Let_def split: if_splits)
  from two_colons_split [OF this]
  show "\<exists>base user pass. raw = base @ CHR '':'' # user @ CHR '':'' # pass
        \<and> base \<noteq> [] \<and> CHR '':'' \<notin> set user \<and> CHR '':'' \<notin> set pass"
    by blast
qed

text \<open>
  Claim C10.  On a string of the three segments, when the host accepts the base, both
  parsers return a link whatever the decoding does: the user name and the password are the
  percent-decoded trimmed segments, and a segment on which \<open>decodeURIComponent\<close>
  throws is kept as it is.
\<close>

theorem credentials_percent_decoded:
  assumes "CHR '':'' \<notin> set user" "CHR '':'' \<notin> set pass" "base \<noteq> []"
    and "URL (if hasSchemePrefix (trim base) then trim base else ''https://'' @ trim base) = Some url"
  shows "(trim raw = base @ CHR '':'' # user @ CHR '':'' # pass \<and> \<not> isBareScheme (trim base) \<longrightarrow>
            parseColonLink URL raw =
              Some \<lparr>link_url = url_href url,
                    link_u = (case decodeURIComponent (trim user) of None \<Rightarrow> trim user | Some d \<Rightarrow> d),
                    link_p = (case decodeURIComponent (trim pass) of None \<Rightarrow> trim pass | Some d \<Rightarrow> d)\<rparr>)
       \<and> parseColonLinkFlexible URL (base @ CHR '':'' # user @ CHR '':'' # pass) =
              Some \<lparr>link_url = url_href url,
                    link_u = (case decodeURIComponent (trim user) of None \<Rightarrow> trim user | Some d \<Rightarrow> d),
                    link_p = (case decodeURIComponent (trim pass) of None \<Rightarrow> trim pass | Some d \<Rightarrow> d)\<rparr>"
proof -
  have keep: "decodeOrKeep seg = (case decodeURIComponent seg of None \<Rightarrow> seg | Some d \<Rightarrow> d)" for seg
    by (simp add: decodeOrKeep_def split: option.splits)
  show ?thesis
    using parseColonLink_grammar [OF assms(1,2), of raw base URL]
      parseColonLinkFlexible_grammar [OF assms(1,2), of URL base] assms(3,4)
    by (simp add: keep)
qed

theorem credentials_percent_decoded_witness:
  "parseColonLink exampleURL ''https://shop.test/login:bob%40x.com:p%40ss''
     = Some \<lparr>link_url = ''https://shop.test/login'', link_u = ''bob@x.com'', link_p = ''p@ss''\<rparr>
   \<and> parseColonLinkFlexible exampleURL ''https://shop.test/login:bob%40x.com:p%40ss''
     = Some \<lparr>link_url = ''https://shop.test/login'', link_u = ''bob@x.com'', link_p = ''p@ss''\<rparr>
   \<and> decodeURIComponent ''100%'' = None
   \<and> parseColonLink exampleURL ''example.com:100%:%zz''
     = Some \<lparr>link_url = ''https://example.com/'', link_u = ''100%'', link_p = ''%zz''\<rparr>"
proof -
  have shape: "trim ''https://shop.test/login:bob%40x.com:p%40ss''
      = ''https://shop.test/login'' @ CHR '':'' # ''bob%40x.com'' @ CHR '':'' # ''p%40ss''"
    by code_simp
  have base: "exampleURL (if hasSchemePrefix (trim ''https://shop.test/login'')
                          then trim ''https://shop.test/login''
                          else ''https://'' @ trim ''https://shop.test/login'')
      = Some \<lparr>url_href = ''https://shop.test/login'', url_origin = ''https://shop.test''\<rparr>"
    unfolding exampleURL_def by code_simp
  have bare: "\<not> isBareScheme (trim ''https://shop.test/login'')"
    by code_simp
  have dec: "decodeURIComponent (trim ''bob%40x.com'') = Some ''bob@x.com''"
    "decodeURIComponent (trim ''p%40ss'') = Some ''p@ss''"
    by code_simp+
  have shape': "trim ''example.com:100%:%zz'' = ''example.com'' @ CHR '':'' # ''100%'' @ CHR '':'' # ''%zz''"
    by code_simp
  have base': "exampleURL (if hasSchemePrefix (trim ''example.com'') then trim ''example.com''
                           else ''https://'' @ trim ''example.com'')
      = Some \<lparr>url_href = ''https://example.com/'', url_origin = ''https://example.com''\<rparr>"
    unfolding exampleURL_def by code_simp
  have bare': "\<not> isBareScheme (trim ''example.com'')"
    by code_simp
  have dec': "decodeURIComponent (trim ''100%'') = None" "decodeURIComponent (trim ''%zz'') = None"
    "trim ''100%'' = ''100%''" "trim ''%zz'' = ''%zz''"
    by code_simp+
  show ?thesis
    using credentials_percent_decoded [where user = "''bob%40x.com''" and pass = "''p%40ss''"
        and base = "''https://shop.test/login''" and URL = exampleURL
        and raw = "''https://shop.test/login:bob%40x.com:p%40ss''", OF _ _ _ base]
      shape bare dec
      credentials_percent_decoded [where user = "''100%''" and pass = "''%zz''"
        and base = "''example.com''" and URL = exampleURL
        and raw = "''example.com:100%:%zz''", OF _ _ _ base']
      shape' bare' dec'
    by simp
qed

section \<open>The anti-loop governor\<close>

text \<open>
  Each of \<open>fillBoth\<close>, \<open>fillUser\<close> and \<open>fillPass\<close> clicks at most once, only
  behind \<open>canAutoSubmit\<close>, and records the click; the four callbacks inherit this.
\<close>

lemma clicks_append: "clicks (es @ es') = clicks es + clicks es'"
  by (simp add: clicks_def)

lemma clicks_simps:
  "clicks [] = 0"
  "clicks (SetVal n v # es) = clicks es"
  "clicks (Send m # es) = clicks es"
  "clicks (Click b # es) = Suc (clicks es)"
  by (simp_all add: clicks_def)

lemma sends_append: "sends (es @ es') = sends es + sends es'"
  by (simp add: sends_def)

lemma sends_simps:
  "sends [] = 0"
  "sends (SetVal n v # es) = sends es"
  "sends (Click b # es) = sends es"
  "sends (Send m # es) = Suc (sends es)"
  by (simp_all add: sends_def)

lemma submitNear_clicked: "submitNear pg el cs = (cs', es) \<Longrightarrow> clicked pg cs cs' es"
  by (auto simp: submitNear_def clicked_def clicks_simps sends_simps split: option.splits if_splits)

lemma clicked_prepend:
  "clicked pg cs cs' es \<Longrightarrow> clicks pre = 0 \<and> sends pre = 0 \<Longrightarrow> clicked pg cs cs' (pre @ es)"
  by (simp add: clicked_def clicks_append sends_append)

lemma setVal_no_click:
  "clicks (case b of None \<Rightarrow> [] | Some el \<Rightarrow> if v \<noteq> [] then [SetVal (el_node el) v] else []) = 0
   \<and> sends (case b of None \<Rightarrow> [] | Some el \<Rightarrow> if v \<noteq> [] then [SetVal (el_node el) v] else []) = 0"
  by (simp add: clicks_simps sends_simps split: option.splits)

lemma fillBothRoots_clicked:
  "fillBothRoots lower pg u p roots anyFilled cs = (res, cs', es)
     \<Longrightarrow> clicked pg cs cs' es \<and> (res \<or> (cs' = cs \<and> clicks es = 0))"
proof (induction roots arbitrary: anyFilled res cs' es)
  case Nil
  then show ?case by (simp add: clicked_def clicks_simps sends_simps)
next
  case (Cons r roots)
  obtain userBest passBest where best: "findBestInputs lower r = (userBest, passBest)"
    by (cases "findBestInputs lower r")
  define setUser where "setUser = (case userBest of None \<Rightarrow> [] | Some ub \<Rightarrow>
                           if u \<noteq> [] then [SetVal (el_node ub) u] else [])"
  define setPass where "setPass = (case passBest of None \<Rightarrow> [] | Some pb \<Rightarrow>
                           if p \<noteq> [] then [SetVal (el_node pb) p] else [])"
  have pre: "clicks (setUser @ setPass) = 0 \<and> sends (setUser @ setPass) = 0"
    by (simp add: clicks_append sends_append setUser_def setPass_def setVal_no_click)
  from Cons.prems best have
    "(\<exists>a rest. fillBothRoots lower pg u p roots a cs = (res, cs', rest) \<and> es = (setUser @ setPass) @ rest)
     \<or> (\<exists>pb click. res \<and> submitNear pg pb cs = (cs', click) \<and> es = (setUser @ setPass) @ click)"
    by (auto simp: Let_def setUser_def setPass_def split: option.splits if_splits prod.splits)
  then show ?case
  proof (elim disjE exE conjE)
    fix a rest
    assume rest: "fillBothRoots lower pg u p roots a cs = (res, cs', rest)"
      and es: "es = (setUser @ setPass) @ rest"
    from rest have "clicked pg cs cs' rest \<and> (res \<or> (cs' = cs \<and> clicks rest = 0))"
      by (rule Cons.IH)
    then show ?thesis
      unfolding es using pre clicked_prepend [of pg cs cs' rest "setUser @ setPass"]
      by (auto simp: clicks_append)
  next
    fix pb click
    assume res and "submitNear pg pb cs = (cs', click)" and es: "es = (setUser @ setPass) @ click"
    then have "clicked pg cs cs' click"
      using submitNear_clicked by blast
    then show ?thesis
      unfolding es using pre \<open>res\<close> clicked_prepend [of pg cs cs' click "setUser @ setPass"]
      by simp
  qed
qed

lemma fillUserRoots_clicked:
  "fillUserRoots lower pg u roots cs = (res, cs', es) \<Longrightarrow> clicked pg cs cs' es"
proof (induction roots)
  case Nil
  then show ?case by (simp add: clicked_def clicks_simps sends_simps)
next
  case (Cons r roots)
  from Cons.prems have
    "fillUserRoots lower pg u roots cs = (res, cs', es)
     \<or> (\<exists>ub click. submitNear pg ub cs = (cs', click) \<and> es = [SetVal (el_node ub) u] @ click)"
    by (auto split: option.splits if_splits prod.splits)
  then show ?case
    using Cons.IH submitNear_clicked clicked_prepend [of pg cs cs' _ "[SetVal _ u]"]
    by (auto simp: clicks_simps sends_simps)
qed

lemma fillPassRoots_clicked:
  "fillPassRoots lower pg p roots cs = (res, cs', es) \<Longrightarrow> clicked pg cs cs' es"
proof (induction roots)
  case Nil
  then show ?case by (simp add: clicked_def clicks_simps sends_simps)
next
  case (Cons r roots)
  from Cons.prems have
    "fillPassRoots lower pg p roots cs = (res, cs', es)
     \<or> (\<exists>pb click. submitNear pg pb cs = (cs', click) \<and> es = [SetVal (el_node pb) p] @ click)"
    by (auto split: option.splits if_splits prod.splits)
  then show ?case
    using Cons.IH submitNear_clicked clicked_prepend [of pg cs cs' _ "[SetVal _ p]"]
    by (auto simp: clicks_simps sends_simps)
qed

lemma clicked_governed:
  "clicked pg cs cs' es \<Longrightarrow> governed pg cs cs' es"
  by (auto simp: clicked_def governed_def recordSubmit_def)

lemma clicked_fields:
  "clicked pg cs cs' es \<Longrightarrow>
     armed cs' = armed cs \<and> stage cs' = stage cs \<and> twoStep cs' = twoStep cs
     \<and> state_u cs' = state_u cs \<and> state_p cs' = state_p cs \<and> attempts cs' = attempts cs
     \<and> intervalSet cs' = intervalSet cs \<and> observing cs' = observing cs
     \<and> coolDownUntil cs' = coolDownUntil cs"
  by (auto simp: clicked_def recordSubmit_def)

lemma canAutoSubmit_attempts [simp]:
  "canAutoSubmit pg (cs\<lparr>attempts := n\<rparr>) = canAutoSubmit pg cs"
  by (simp add: canAutoSubmit_def)

lemma tickNormal_governed:
  "tickNormal lower pg cs = (cs', es) \<Longrightarrow> governed pg cs cs' es"
proof -
  assume run: "tickNormal lower pg cs = (cs', es)"
  define cs1 where "cs1 = cs\<lparr>attempts := attempts cs + 1\<rparr>"
  obtain filled cs2 es2 where fill: "fillBoth lower pg (state_u cs1) (state_p cs1) cs1 = (filled, cs2, es2)"
    by (cases "fillBoth lower pg (state_u cs1) (state_p cs1) cs1")
  then have g: "governed pg cs1 cs2 es2"
    using fillBothRoots_clicked clicked_governed unfolding fillBoth_def by blast
  from run fill show ?thesis
    using g
    by (auto simp: tickNormal_def Let_def cs1_def [symmetric] failureDetected_def
          onFailureCoolDown_def governed_def clicks_simps clicks_append cs1_def
          split: if_splits)
qed


lemma mutationNormal_governed:
  "mutationNormal lower pg cs = (cs', es) \<Longrightarrow> governed pg cs cs' es"
proof -
  assume run: "mutationNormal lower pg cs = (cs', es)"
  obtain filled cs2 es2 where fill: "fillBoth lower pg (state_u cs) (state_p cs) cs = (filled, cs2, es2)"
    by (cases "fillBoth lower pg (state_u cs) (state_p cs) cs")
  then have "governed pg cs cs2 es2"
    using fillBothRoots_clicked clicked_governed unfolding fillBoth_def by blast
  with run fill show ?thesis
    by (auto simp: mutationNormal_def governed_def clicks_simps split: if_splits)
qed

lemma timeOutTwoStep_governed:
  "governed pg cs cs' es \<Longrightarrow> timeOutTwoStep (cs', es) = (cs'', es') \<Longrightarrow> governed pg cs cs'' es'"
  by (auto simp: timeOutTwoStep_def governed_def split: if_splits)

lemma tickTwoStep_governed:
  "tickTwoStep lower pg cs = (cs', es) \<Longrightarrow> governed pg cs cs' es"
proof -
  assume "tickTwoStep lower pg cs = (cs', es)"
  define cs0 where "cs0 = cs\<lparr>attempts := attempts cs + 1\<rparr>"
  note run = \<open>tickTwoStep lower pg cs = (cs', es)\<close> [unfolded tickTwoStep_def Let_def, folded cs0_def]
  have same: "governed pg cs0 c e \<Longrightarrow> governed pg cs c e" for c e
    by (simp add: governed_def cs0_def)
  obtain filled cs1 es1 where both: "fillBoth lower pg (state_u cs0) (state_p cs0) cs0 = (filled, cs1, es1)"
    by (cases "fillBoth lower pg (state_u cs0) (state_p cs0) cs0")
  then have b: "clicked pg cs0 cs1 es1" "filled \<or> (cs1 = cs0 \<and> clicks es1 = 0)"
    using fillBothRoots_clicked unfolding fillBoth_def by blast+
  obtain userFilled cs2 es2 where user: "fillUser lower pg (state_u cs1) cs1 = (userFilled, cs2, es2)"
    by (cases "fillUser lower pg (state_u cs1) cs1")
  then have u: "clicked pg cs1 cs2 es2"
    using fillUserRoots_clicked unfolding fillUser_def by blast
  obtain passFilled cs3 es3 where pass: "fillPass lower pg (state_p cs0) cs0 = (passFilled, cs3, es3)"
    by (cases "fillPass lower pg (state_p cs0) cs0")
  then have p: "clicked pg cs0 cs3 es3"
    using fillPassRoots_clicked unfolding fillPass_def by blast
  consider (idle) "\<not> armed cs0"
    | (failure) "armed cs0" "pageShowsLikelyFailure lower pg cs0"
    | (both) "armed cs0" "\<not> pageShowsLikelyFailure lower pg cs0" "stage cs0 = ''init''" filled
    | (user) "armed cs0" "\<not> pageShowsLikelyFailure lower pg cs0" "stage cs0 = ''init''" "\<not> filled"
    | (pass) "armed cs0" "\<not> pageShowsLikelyFailure lower pg cs0" "stage cs0 \<noteq> ''init''"
    by blast
  then show ?thesis
  proof cases
    case idle
    with run show ?thesis
      by (auto simp: cs0_def governed_def clicks_simps)
  next
    case failure
    with run show ?thesis
      by (auto simp: cs0_def governed_def clicks_simps failureDetected_def onFailureCoolDown_def)
  next
    case both
    with run both \<open>fillBoth _ _ _ _ _ = _\<close> have "cs' = cs1\<lparr>armed := False, intervalSet := False\<rparr>"
      "es = es1 @ [Send ClearCreds]"
      by auto
    with clicked_governed [OF b(1)] show ?thesis
      by (intro same) (auto simp: governed_def clicks_append clicks_simps)
  next
    case user
    with b(2) have unchanged: "cs1 = cs0" "clicks es1 = 0"
      by simp_all
    have g: "governed pg cs0 cs2 (es1 @ es2)"
      using clicked_governed [OF u] unchanged by (simp add: governed_def clicks_append)
    have g': "governed pg cs0 (cs2\<lparr>stage := ''userSubmitted''\<rparr>)
                (es1 @ es2 @ [Send (UpdateStage ''userSubmitted'')])"
      using g by (simp add: governed_def clicks_append clicks_simps)
    from run user \<open>fillBoth _ _ _ _ _ = _\<close> \<open>fillUser _ _ _ _ = _\<close>
    have "timeOutTwoStep (cs2\<lparr>stage := ''userSubmitted''\<rparr>,
              es1 @ es2 @ [Send (UpdateStage ''userSubmitted'')]) = (cs', es)
          \<or> timeOutTwoStep (cs2, es1 @ es2) = (cs', es)"
      by (auto split: if_splits)
    then show ?thesis
      using timeOutTwoStep_governed [OF g] timeOutTwoStep_governed [OF g'] same by blast
  next
    case pass
    have g: "governed pg cs0 cs3 es3"
      using clicked_governed [OF p] .
    have g': "governed pg cs0 (cs3\<lparr>armed := False, intervalSet := False\<rparr>) (es3 @ [Send ClearCreds])"
      using g by (simp add: governed_def clicks_append clicks_simps)
    from run pass \<open>fillPass _ _ _ _ = _\<close>
    have "timeOutTwoStep (cs3\<lparr>armed := False, intervalSet := False\<rparr>, es3 @ [Send ClearCreds]) = (cs', es)
          \<or> timeOutTwoStep (cs3, es3) = (cs', es)"
      by (auto split: if_splits)
    then show ?thesis
      using timeOutTwoStep_governed [OF g] timeOutTwoStep_governed [OF g'] same by blast
  qed
qed

lemma mutationTwoStep_governed:
  "mutationTwoStep lower pg cs = (cs', es) \<Longrightarrow> governed pg cs cs' es"
proof -
  assume run: "mutationTwoStep lower pg cs = (cs', es)"
  obtain filled cs2 es2 where both: "fillBoth lower pg (state_u cs) (state_p cs) cs = (filled, cs2, es2)"
    by (cases "fillBoth lower pg (state_u cs) (state_p cs) cs")
  then have b: "governed pg cs cs2 es2"
    using fillBothRoots_clicked clicked_governed unfolding fillBoth_def by blast
  obtain passFilled cs3 es3 where pass: "fillPass lower pg (state_p cs) cs = (passFilled, cs3, es3)"
    by (cases "fillPass lower pg (state_p cs) cs")
  then have p: "governed pg cs cs3 es3"
    using fillPassRoots_clicked clicked_governed unfolding fillPass_def by blast
  from run both pass b p show ?thesis
    by (auto simp: mutationTwoStep_def governed_def clicks_simps split: if_splits)
qed

lemma governed_idle: "governed pg cs cs []"
  by (simp add: governed_def clicks_simps)

lemma step_governed:
  "step lower cs (Tick pg) = (cs', es) \<Longrightarrow> governed pg cs cs' es"
  "step lower cs (Mutation pg) = (cs', es) \<Longrightarrow> governed pg cs cs' es"
  using tickNormal_governed tickTwoStep_governed mutationNormal_governed mutationTwoStep_governed
    governed_idle
  by (auto split: if_splits)

lemma governed_count:
  assumes "governed pg cs cs' es"
  shows "autoSubmit cs' = autoSubmit cs"
    and "submittedCount cs' = submittedCount cs + clicks es"
    and "submittedCount cs \<le> MAX_SUBMITS_PER_TAB \<Longrightarrow> submittedCount cs' \<le> MAX_SUBMITS_PER_TAB"
    and "\<not> autoSubmit cs \<Longrightarrow> clicks es = 0"
proof -
  from assms show "autoSubmit cs' = autoSubmit cs"
    and count: "submittedCount cs' = submittedCount cs + clicks es"
    by (simp_all add: governed_def)
  from assms have gate: "0 < clicks es \<Longrightarrow> canAutoSubmit pg cs" and one: "clicks es \<le> 1"
    by (simp_all add: governed_def)
  show "submittedCount cs' \<le> MAX_SUBMITS_PER_TAB" if "submittedCount cs \<le> MAX_SUBMITS_PER_TAB"
  proof (cases "0 < clicks es")
    case True
    then have "submittedCount cs < MAX_SUBMITS_PER_TAB"
      using gate by (auto simp: canAutoSubmit_def split: if_splits)
    with one count show ?thesis by simp
  next
    case False
    with that count show ?thesis by simp
  qed
  show "clicks es = 0" if "\<not> autoSubmit cs"
  proof (rule ccontr)
    assume "clicks es \<noteq> 0"
    then have "canAutoSubmit pg cs" using gate by simp
    with that show False by (simp add: canAutoSubmit_def)
  qed
qed

lemma step_count:
  assumes "step lower cs t = (cs', es)"
  shows "autoSubmit cs' = autoSubmit cs"
    and "submittedCount cs' = submittedCount cs + clicks es"
    and "submittedCount cs \<le> MAX_SUBMITS_PER_TAB \<Longrightarrow> submittedCount cs' \<le> MAX_SUBMITS_PER_TAB"
    and "\<not> autoSubmit cs \<Longrightarrow> clicks es = 0"
proof -
  have "(\<exists>pg. governed pg cs cs' es) \<or> (cs' = cs\<lparr>observing := False\<rparr> \<and> es = [])"
  proof (cases t)
    case (Tick pg)
    with assms have "governed pg cs cs' es" by (blast intro: step_governed(1))
    then show ?thesis by blast
  next
    case (Mutation pg)
    with assms have "governed pg cs cs' es" by (blast intro: step_governed(2))
    then show ?thesis by blast
  next
    case ObserverTimeout
    with assms show ?thesis by auto
  qed
  then show "autoSubmit cs' = autoSubmit cs"
    and "submittedCount cs' = submittedCount cs + clicks es"
    and "submittedCount cs \<le> MAX_SUBMITS_PER_TAB \<Longrightarrow> submittedCount cs' \<le> MAX_SUBMITS_PER_TAB"
    and "\<not> autoSubmit cs \<Longrightarrow> clicks es = 0"
    using governed_count by (auto simp: clicks_simps)
qed

lemma run_count:
  assumes "run lower cs ts = (cs', es)"
  shows "autoSubmit cs' = autoSubmit cs"
    and "submittedCount cs' = submittedCount cs + clicks es"
    and "submittedCount cs \<le> MAX_SUBMITS_PER_TAB \<Longrightarrow> submittedCount cs' \<le> MAX_SUBMITS_PER_TAB"
    and "\<not> autoSubmit cs \<Longrightarrow> clicks es = 0"
  using assms
proof (induction ts arbitrary: cs cs' es)
  case Nil
  {
    case 1 then show ?case by simp
  next
    case 2 then show ?case by (simp add: clicks_simps)
  next
    case 3 then show ?case by simp
  next
    case 4 then show ?case by (simp add: clicks_simps)
  }
next
  case (Cons t ts)
  {
    case 1
    obtain cs1 es1 where s: "step lower cs t = (cs1, es1)" by (cases "step lower cs t")
    obtain cs2 es2 where r: "run lower cs1 ts = (cs2, es2)" by (cases "run lower cs1 ts")
    from 1 s r have "cs' = cs2" by simp
    with step_count(1) [OF s] Cons.IH(1) [OF r] show ?case by simp
  next
    case 2
    obtain cs1 es1 where s: "step lower cs t = (cs1, es1)" by (cases "step lower cs t")
    obtain cs2 es2 where r: "run lower cs1 ts = (cs2, es2)" by (cases "run lower cs1 ts")
    from 2 s r have "cs' = cs2" "es = es1 @ es2" by simp_all
    with step_count(2) [OF s] Cons.IH(2) [OF r] show ?case by (simp add: clicks_append)
  next
    case 3
    obtain cs1 es1 where s: "step lower cs t = (cs1, es1)" by (cases "step lower cs t")
    obtain cs2 es2 where r: "run lower cs1 ts = (cs2, es2)" by (cases "run lower cs1 ts")
    from 3 s r have "cs' = cs2" by simp
    with step_count(3) [OF s] Cons.IH(3) [OF _ r] 3 show ?case by simp
  next
    case 4
    obtain cs1 es1 where s: "step lower cs t = (cs1, es1)" by (cases "step lower cs t")
    obtain cs2 es2 where r: "run lower cs1 ts = (cs2, es2)" by (cases "run lower cs1 ts")
    from 4 s r have "es = es1 @ es2" by simp
    with step_count(1,4) [OF s] Cons.IH(4) [OF _ r] 4 show ?case by (simp add: clicks_append)
  }
qed


text \<open>
  Claim C1, as amended.  In the content script with the governor, whatever the configured
  default for automatic submission, the reply to \<open>requestCreds\<close> and the triggers, the
  number of clicks on a submit control never exceeds \<open>MAX_SUBMITS_PER_TAB\<close> and equals
  \<open>submittedCount\<close>; a callback that clicks found \<open>canAutoSubmit\<close> true in the
  state it started from, and every callback adds its clicks to \<open>submittedCount\<close>.
\<close>

theorem submit_cap:
  "clicks (snd (pageContext lower auto res ts)) \<le> MAX_SUBMITS_PER_TAB
   \<and> submittedCount (fst (pageContext lower auto res ts)) = clicks (snd (pageContext lower auto res ts))
   \<and> (0 < clicks (snd (step lower cs (Tick pg))) \<longrightarrow> canAutoSubmit pg cs)
   \<and> (0 < clicks (snd (step lower cs (Mutation pg))) \<longrightarrow> canAutoSubmit pg cs)
   \<and> submittedCount (fst (step lower cs t)) = submittedCount cs + clicks (snd (step lower cs t))"
proof (intro conjI)
  define start where "start = requestCreds res (initialContent auto)"
  have zero: "submittedCount start = 0"
    by (simp add: start_def requestCreds_def initialContent_def split: option.splits)
  obtain cs' es where r: "run lower start ts = (cs', es)"
    by (cases "run lower start ts")
  from run_count(2,3) [OF r] zero have "submittedCount cs' = clicks es"
    "submittedCount cs' \<le> MAX_SUBMITS_PER_TAB"
    by simp_all
  with r show "clicks (snd (pageContext lower auto res ts)) \<le> MAX_SUBMITS_PER_TAB"
    and "submittedCount (fst (pageContext lower auto res ts)) = clicks (snd (pageContext lower auto res ts))"
    by (simp_all add: pageContext_def start_def)
next
  have "governed pg cs (fst (step lower cs (Tick pg))) (snd (step lower cs (Tick pg)))"
    by (rule step_governed(1)) simp
  then show "0 < clicks (snd (step lower cs (Tick pg))) \<longrightarrow> canAutoSubmit pg cs"
    by (simp add: governed_def)
next
  have "governed pg cs (fst (step lower cs (Mutation pg))) (snd (step lower cs (Mutation pg)))"
    by (rule step_governed(2)) simp
  then show "0 < clicks (snd (step lower cs (Mutation pg))) \<longrightarrow> canAutoSubmit pg cs"
    by (simp add: governed_def)
next
  show "submittedCount (fst (step lower cs t)) = submittedCount cs + clicks (snd (step lower cs t))"
    by (rule step_count(2)) simp
qed

theorem submit_cap_witness:
  "clicks (snd (pageContext exampleLower True (Some exampleCreds)
             [Mutation loginPage, Mutation loginPage, Tick loginPage])) = 1
   \<and> 0 < clicks (snd (step exampleLower (requestCreds (Some exampleCreds) (initialContent True))
                      (Mutation loginPage)))
   \<and> canAutoSubmit loginPage (requestCreds (Some exampleCreds) (initialContent True))
   \<and> MAX_SUBMITS_PER_TAB = 1"
proof -
  have run: "clicks (snd (pageContext exampleLower True (Some exampleCreds)
             [Mutation loginPage, Mutation loginPage, Tick loginPage])) = 1"
    by code_simp
  have one: "0 < clicks (snd (step exampleLower (requestCreds (Some exampleCreds) (initialContent True))
                      (Mutation loginPage)))"
    by code_simp
  show ?thesis
    using run one
      submit_cap [of exampleLower True "Some exampleCreds" "[Mutation loginPage, Mutation loginPage, Tick loginPage]"
        "requestCreds (Some exampleCreds) (initialContent True)" loginPage "Mutation loginPage"]
    by (simp add: MAX_SUBMITS_PER_TAB_def)
qed

text \<open>
  The claim as stated also covers \<open>fillBothIfPresent\<close> of \<open>content.js\<close>.  That script
  has no gate and no counter: two mutation notifications on the login page click the submit
  button twice.
\<close>

theorem content_js_submits_without_cap:
  "clicks (snd (tryAutofillNormal exampleLower exampleCreds [Mutation loginPage, Mutation loginPage])) = 2
   \<and> \<not> clicks (snd (tryAutofillNormal exampleLower exampleCreds [Mutation loginPage, Mutation loginPage]))
         \<le> MAX_SUBMITS_PER_TAB"
  by code_simp

text \<open>
  Claim C2.  With \<open>AUTO_SUBMIT_DEFAULT = false\<close> the field \<open>autoSubmit\<close> is false in
  every state a page context reaches, \<open>canAutoSubmit\<close> is false there for every page, no
  run clicks a submit control, and neither does a call of \<open>fillBoth\<close>, \<open>fillUser\<close> or
  \<open>fillPass\<close> from such a state.
\<close>

theorem default_never_submits:
  "\<not> autoSubmit (fst (pageContext lower AUTO_SUBMIT_DEFAULT res ts))
   \<and> \<not> canAutoSubmit pg (fst (pageContext lower AUTO_SUBMIT_DEFAULT res ts))
   \<and> clicks (snd (pageContext lower AUTO_SUBMIT_DEFAULT res ts)) = 0
   \<and> clicks (snd (snd (fillBoth lower pg u p (fst (pageContext lower AUTO_SUBMIT_DEFAULT res ts))))) = 0
   \<and> clicks (snd (snd (fillUser lower pg u (fst (pageContext lower AUTO_SUBMIT_DEFAULT res ts))))) = 0
   \<and> clicks (snd (snd (fillPass lower pg p (fst (pageContext lower AUTO_SUBMIT_DEFAULT res ts))))) = 0"
proof -
  define start where "start = requestCreds res (initialContent AUTO_SUBMIT_DEFAULT)"
  define reached where "reached = fst (pageContext lower AUTO_SUBMIT_DEFAULT res ts)"
  have off: "\<not> autoSubmit start"
    by (simp add: start_def requestCreds_def initialContent_def AUTO_SUBMIT_DEFAULT_def
          split: option.splits)
  have r: "run lower start ts = (reached, snd (pageContext lower AUTO_SUBMIT_DEFAULT res ts))"
    by (simp add: reached_def pageContext_def start_def)
  from run_count(1,4) [OF r] off have still: "\<not> autoSubmit reached"
    and none: "clicks (snd (pageContext lower AUTO_SUBMIT_DEFAULT res ts)) = 0"
    by simp_all
  then have gate: "\<not> canAutoSubmit pg reached"
    by (simp add: canAutoSubmit_def)
  have quiet: "clicks es = 0" if "clicked pg reached cs' es" for cs' es
    using that gate by (auto simp: clicked_def)
  have "clicked pg reached (fst (snd (fillBoth lower pg u p reached))) (snd (snd (fillBoth lower pg u p reached)))"
    using fillBothRoots_clicked [of lower pg u p "allRoots pg" False reached]
    by (cases "fillBoth lower pg u p reached") (simp add: fillBoth_def)
  moreover
  have "clicked pg reached (fst (snd (fillUser lower pg u reached))) (snd (snd (fillUser lower pg u reached)))"
    using fillUserRoots_clicked [of lower pg u "allRoots pg" reached]
    by (cases "fillUser lower pg u reached") (simp add: fillUser_def)
  moreover
  have "clicked pg reached (fst (snd (fillPass lower pg p reached))) (snd (snd (fillPass lower pg p reached)))"
    using fillPassRoots_clicked [of lower pg p "allRoots pg" reached]
    by (cases "fillPass lower pg p reached") (simp add: fillPass_def)
  ultimately show ?thesis
    using still gate none quiet unfolding reached_def by blast
qed

theorem default_never_submits_witness:
  "fills (snd (pageContext exampleLower AUTO_SUBMIT_DEFAULT (Some exampleCreds) [Mutation loginPage, Tick loginPage])) = 4
   \<and> clicks (snd (pageContext exampleLower AUTO_SUBMIT_DEFAULT (Some exampleCreds) [Mutation loginPage, Tick loginPage])) = 0
   \<and> pg_submitNear loginPage (el_node passField) = Some 9"
proof -
  have "fills (snd (pageContext exampleLower AUTO_SUBMIT_DEFAULT (Some exampleCreds) [Mutation loginPage, Tick loginPage])) = 4"
    by code_simp
  moreover have "pg_submitNear loginPage (el_node passField) = Some 9"
    by code_simp
  ultimately show ?thesis
    using default_never_submits [of exampleLower "Some exampleCreds" "[Mutation loginPage, Tick loginPage]"]
    by simp
qed

text \<open>
  Claim C6, as amended.  In the content script with the governor, once \<open>armed\<close> is
  false no sequence of poll ticks and mutation notifications has any effect: nothing is
  filled, clicked or sent, and the flow stays disarmed.
\<close>

lemma step_disarmed:
  "\<not> armed cs \<Longrightarrow> snd (step lower cs t) = [] \<and> \<not> armed (fst (step lower cs t))"
  by (cases t) (simp_all add: tickNormal_def tickTwoStep_def mutationNormal_def
      mutationTwoStep_def Let_def)

theorem disarmed_is_terminal:
  "\<not> armed cs \<Longrightarrow> snd (run lower cs ts) = [] \<and> \<not> armed (fst (run lower cs ts))"
proof (induction ts arbitrary: cs)
  case Nil
  then show ?case by simp
next
  case (Cons t ts)
  from step_disarmed [OF Cons.prems, of lower t]
  have quiet: "snd (step lower cs t) = []" and off: "\<not> armed (fst (step lower cs t))"
    by simp_all
  from Cons.IH [OF off] quiet show ?case
    by (simp add: split_beta)
qed

theorem disarmed_is_terminal_witness:
  "\<not> armed (fst (pageContext exampleLower True (Some exampleCreds) [Tick loginPage]))
   \<and> snd (run exampleLower (fst (pageContext exampleLower True (Some exampleCreds) [Tick loginPage]))
            [Mutation loginPage, Tick loginPage, Mutation loginPage]) = []"
proof -
  have off: "\<not> armed (fst (pageContext exampleLower True (Some exampleCreds) [Tick loginPage]))"
    by code_simp
  from disarmed_is_terminal [OF off, of exampleLower "[Mutation loginPage, Tick loginPage, Mutation loginPage]"] off
  show ?thesis by simp
qed

text \<open>
  The claim as stated also covers \<open>tryAutofillNormal\<close> of \<open>content.js\<close>, which has no
  such state: after the poll has filled the form, told the coordinator to clear the entry and
  cleared its interval, the next mutation notification fills and clicks again.
\<close>

theorem content_js_fills_after_completion:
  "snd (tryAutofillNormal exampleLower exampleCreds [Tick loginPage])
     = [SetVal 1 ''alice'', SetVal 2 ''s3cr3t'', Click 9, Send ClearCreds]
   \<and> \<not> af_intervalSet (fst (tryAutofillNormal exampleLower exampleCreds [Tick loginPage]))
   \<and> snd (runNormal_content exampleLower exampleCreds (fst (tryAutofillNormal exampleLower exampleCreds [Tick loginPage]))
            [Mutation loginPage])
     = [SetVal 1 ''alice'', SetVal 2 ''s3cr3t'', Click 9]"
  by code_simp

section \<open>Failure detection\<close>

lemma pageShowsLikelyFailure_attempts [simp]:
  "pageShowsLikelyFailure lower pg (cs\<lparr>attempts := n\<rparr>) = pageShowsLikelyFailure lower pg cs"
  by (simp add: pageShowsLikelyFailure_def split: option.splits)

lemma mutation_clicked:
  "step lower cs (Mutation pg) = (cs', es) \<Longrightarrow> clicked pg cs cs' es"
proof -
  assume run: "step lower cs (Mutation pg) = (cs', es)"
  have idle: "clicked pg cs cs []"
    by (simp add: clicked_def clicks_simps sends_simps)
  obtain f1 c1 e1 where both: "fillBoth lower pg (state_u cs) (state_p cs) cs = (f1, c1, e1)"
    by (cases "fillBoth lower pg (state_u cs) (state_p cs) cs")
  then have b: "clicked pg cs c1 e1"
    using fillBothRoots_clicked unfolding fillBoth_def by blast
  obtain f2 c2 e2 where pass: "fillPass lower pg (state_p cs) cs = (f2, c2, e2)"
    by (cases "fillPass lower pg (state_p cs) cs")
  then have p: "clicked pg cs c2 e2"
    using fillPassRoots_clicked unfolding fillPass_def by blast
  from run both pass b p idle show ?thesis
    by (auto simp: mutationNormal_def mutationTwoStep_def split: if_splits)
qed

lemma tick_failure:
  assumes "intervalSet cs" "armed cs" "pageShowsLikelyFailure lower pg cs"
  shows "step lower cs (Tick pg) = failureDetected pg (cs\<lparr>attempts := attempts cs + 1\<rparr>)"
proof (cases "twoStep cs")
  case True
  with assms show ?thesis
    by (simp add: tickTwoStep_def Let_def)
next
  case False
  with assms show ?thesis
    by (simp add: tickNormal_def Let_def)
qed

lemma coordinator_clears_and_cools:
  assumes "sender_tabId from = Some tab" "tab \<noteq> 0"
    and "originOf URL (orEmpty (sender_url from)) = origin" "origin \<noteq> []"
  shows "credsByTab (fst (onMessage URL now MarkOriginFailure from
                           (fst (onMessage URL now ClearCreds from bg)))) tab = None"
    and "failUntilByOrigin (fst (onMessage URL now MarkOriginFailure from
                                  (fst (onMessage URL now ClearCreds from bg)))) origin
         = Some (now + 10 * 60 * 1000)"
proof -
  have clear: "onMessage URL now ClearCreds from bg = (disarmTab tab bg, None)" for bg
    using assms(1,2) by (simp add: onMessage_def)
  have mark: "onMessage URL now MarkOriginFailure from bg
      = (bg\<lparr>failUntilByOrigin := (failUntilByOrigin bg)(origin \<mapsto> now + SUBMIT_COOLDOWN_MS)\<rparr>, None)" for bg
    using assms by (simp add: onMessage_def Let_def)
  show "credsByTab (fst (onMessage URL now MarkOriginFailure from
                           (fst (onMessage URL now ClearCreds from bg)))) tab = None"
    by (simp add: clear mark disarmTab_def)
  show "failUntilByOrigin (fst (onMessage URL now MarkOriginFailure from
                                  (fst (onMessage URL now ClearCreds from bg)))) origin
         = Some (now + 10 * 60 * 1000)"
    by (simp add: clear mark SUBMIT_COOLDOWN_MS_def)
qed

text \<open>
  Claim C3, as amended.  On a poll tick of an armed flow, in either mode, a positive failure
  detection precedes every fill: the tick disarms the flow, clears its interval, starts the
  local cooldown and sends \<open>clearCreds\<close> and \<open>markOriginFailure\<close> and nothing else.
  On these two messages from a tab with a truthy id and an address that has an origin, the
  coordinator deletes the entry of the tab and sets the cooldown of the origin to ten minutes
  from now.  A mutation notification runs no detection: it sends nothing and leaves the
  flow armed.  The detection is the one of the source, with the lower-casing of the host,
  whatever its case table.
\<close>

theorem failure_preempts_on_poll:
  assumes "intervalSet cs" "armed cs" "pageShowsLikelyFailure lower pg cs"
    and "sender_tabId from = Some tab" "tab \<noteq> 0"
    and "originOf URL (orEmpty (sender_url from)) = origin" "origin \<noteq> []"
  shows "snd (step lower cs (Tick pg)) = [Send ClearCreds, Send MarkOriginFailure]
     \<and> \<not> armed (fst (step lower cs (Tick pg)))
     \<and> \<not> intervalSet (fst (step lower cs (Tick pg)))
     \<and> coolDownUntil (fst (step lower cs (Tick pg))) = pg_now pg + 10 * 60 * 1000
     \<and> credsByTab (fst (onMessage URL now MarkOriginFailure from
                           (fst (onMessage URL now ClearCreds from bg)))) tab = None
     \<and> failUntilByOrigin (fst (onMessage URL now MarkOriginFailure from
                                  (fst (onMessage URL now ClearCreds from bg)))) origin
         = Some (now + 10 * 60 * 1000)
     \<and> sends (snd (step lower cs (Mutation pg))) = 0
     \<and> armed (fst (step lower cs (Mutation pg)))"
proof (intro conjI)
  note tick = tick_failure [OF assms(1-3)]
  show "snd (step lower cs (Tick pg)) = [Send ClearCreds, Send MarkOriginFailure]"
    by (simp only: tick failureDetected_def snd_conv)
  show "\<not> armed (fst (step lower cs (Tick pg)))"
    by (simp only: tick failureDetected_def fst_conv) (simp add: onFailureCoolDown_def)
  show "\<not> intervalSet (fst (step lower cs (Tick pg)))"
    by (simp only: tick failureDetected_def fst_conv) simp
  show "coolDownUntil (fst (step lower cs (Tick pg))) = pg_now pg + 10 * 60 * 1000"
    by (simp only: tick failureDetected_def fst_conv)
       (simp add: onFailureCoolDown_def SUBMIT_COOLDOWN_MS_def)
  have "clicked pg cs (fst (step lower cs (Mutation pg))) (snd (step lower cs (Mutation pg)))"
    by (rule mutation_clicked) (rule prod.collapse [symmetric])
  then show "sends (snd (step lower cs (Mutation pg))) = 0" "armed (fst (step lower cs (Mutation pg)))"
    using assms(2) clicked_fields [of pg cs "fst (step lower cs (Mutation pg))" "snd (step lower cs (Mutation pg))"]
    by (simp_all add: clicked_def)
  show "credsByTab (fst (onMessage URL now MarkOriginFailure from
                           (fst (onMessage URL now ClearCreds from bg)))) tab = None"
    "failUntilByOrigin (fst (onMessage URL now MarkOriginFailure from
                                  (fst (onMessage URL now ClearCreds from bg)))) origin
         = Some (now + 10 * 60 * 1000)"
    by (rule coordinator_clears_and_cools [OF assms(4-7)])+
qed

theorem failure_preempts_on_poll_witness:
  "pageShowsLikelyFailure exampleLower rejectedPage (requestCreds (Some exampleCreds) (initialContent True))
   \<and> snd (step exampleLower (requestCreds (Some exampleCreds) (initialContent True)) (Tick rejectedPage))
       = [Send ClearCreds, Send MarkOriginFailure]
   \<and> pageShowsLikelyFailure exampleLower rejectedPageRu
         (requestCreds (Some exampleCreds) (initialContent True))
   \<and> snd (step exampleLower (requestCreds (Some exampleCreds) (initialContent True))
             (Tick rejectedPageRu))
       = [Send ClearCreds, Send MarkOriginFailure]
   \<and> credsByTab exampleCoordinator 5 = Some exampleCreds
   \<and> credsByTab (fst (onMessage exampleURL 2000 MarkOriginFailure exampleSender
                         (fst (onMessage exampleURL 2000 ClearCreds exampleSender exampleCoordinator)))) 5
       = None
   \<and> failUntilByOrigin (fst (onMessage exampleURL 2000 MarkOriginFailure exampleSender
                         (fst (onMessage exampleURL 2000 ClearCreds exampleSender exampleCoordinator))))
         ''https://shop.test'' = Some 602000"
proof -
  have a: "intervalSet (requestCreds (Some exampleCreds) (initialContent True))"
    "armed (requestCreds (Some exampleCreds) (initialContent True))"
    by code_simp+
  have h: "pageShowsLikelyFailure exampleLower rejectedPage
             (requestCreds (Some exampleCreds) (initialContent True))"
    by code_simp
  have h': "pageShowsLikelyFailure exampleLower rejectedPageRu
              (requestCreds (Some exampleCreds) (initialContent True))"
    by code_simp
  have s: "sender_tabId exampleSender = Some 5" "(5::nat) \<noteq> 0"
    "originOf exampleURL (orEmpty (sender_url exampleSender)) = ''https://shop.test''"
    "''https://shop.test'' \<noteq> []"
    unfolding exampleURL_def by code_simp+
  have before: "credsByTab exampleCoordinator 5 = Some exampleCreds"
    by (simp add: exampleCoordinator_def)
  from failure_preempts_on_poll [OF a h s, of 2000 exampleCoordinator]
    failure_preempts_on_poll [OF a h' s, of 2000 exampleCoordinator] h h' before
  show ?thesis
    by simp
qed

text \<open>
  The claim as stated covers mutation notifications too.  The observer callbacks do not call
  \<open>pageShowsLikelyFailure\<close>: on a page showing \<open>Incorrect password\<close> a mutation
  notification fills both fields again and the flow stays armed.
\<close>

theorem mutation_skips_failure_detection:
  "armed (requestCreds (Some exampleCreds) (initialContent AUTO_SUBMIT_DEFAULT))
   \<and> observing (requestCreds (Some exampleCreds) (initialContent AUTO_SUBMIT_DEFAULT))
   \<and> pageShowsLikelyFailure exampleLower rejectedPage
        (requestCreds (Some exampleCreds) (initialContent AUTO_SUBMIT_DEFAULT))
   \<and> snd (step exampleLower (requestCreds (Some exampleCreds) (initialContent AUTO_SUBMIT_DEFAULT))
             (Mutation rejectedPage))
       = [SetVal 1 ''alice'', SetVal 2 ''s3cr3t'']
   \<and> armed (fst (step exampleLower (requestCreds (Some exampleCreds) (initialContent AUTO_SUBMIT_DEFAULT))
                    (Mutation rejectedPage)))"
  by code_simp

section \<open>FieldScorer: what counts as a password field\<close>

text \<open>
  Both scores of every element are at least \<open>0\<close> and both loops start from \<open>-1\<close>,
  so the first input of a root is a candidate for either role: \<open>findBestInputs\<close>
  returns a password field whenever the root has any input, and \<open>fillUser\<close>, which
  waits for a root with a user field and no password field, never fills anything.
\<close>

lemma userScoreOf_nonneg: "0 \<le> userScoreOf lower el"
  by (simp add: userScoreOf_def Let_def)

lemma passScoreOf_nonneg: "0 \<le> passScoreOf lower el"
  by (simp add: passScoreOf_def Let_def)

lemma bestLoop_keeps: "best \<noteq> None \<Longrightarrow> fst (bestLoop score els best bestScore) \<noteq> None"
  by (induction els arbitrary: best bestScore) simp_all

lemma bestLoop_finds:
  "0 \<le> score el \<Longrightarrow> fst (bestLoop score (el # els) None (- 1)) \<noteq> None"
  by (simp add: bestLoop_keeps)

lemma findBestInputs_any_input:
  assumes "inputs \<noteq> []"
  shows "\<exists>userBest passBest. findBestInputs lower inputs = (Some userBest, Some passBest)"
proof -
  from assms obtain el els where inputs: "inputs = el # els"
    by (cases inputs) auto
  have "fst (bestLoop (userScoreOf lower) inputs None (- 1)) \<noteq> None"
    unfolding inputs by (rule bestLoop_finds) (rule userScoreOf_nonneg)
  moreover have "fst (bestLoop (passScoreOf lower) inputs None (- 1)) \<noteq> None"
    unfolding inputs by (rule bestLoop_finds) (rule passScoreOf_nonneg)
  ultimately show ?thesis
    by (auto simp: findBestInputs_def)
qed

lemma findBestInputs_no_input: "findBestInputs lower [] = (None, None)"
  by (simp add: findBestInputs_def)

lemma fillUser_never_fills: "fillUserRoots lower pg u roots cs = (False, cs, [])"
proof (induction roots)
  case Nil
  then show ?case by simp
next
  case (Cons r roots)
  show ?case
  proof (cases "r = []")
    case True
    with Cons show ?thesis by (simp add: findBestInputs_no_input)
  next
    case False
    then obtain ub pb where "findBestInputs lower r = (Some ub, Some pb)"
      using findBestInputs_any_input by blast
    with Cons show ?thesis by simp
  qed
qed

text \<open>
  Claim C4.  On a page whose only input is a text field named \<open>username\<close>, in
  single-step mode, the first poll tick takes that field as user field and as password field:
  it writes the user name into it, overwrites it with the password, reports completion,
  disarms the flow and tells the coordinator to clear the entry.  \<open>content.js\<close> does the
  same and clicks the button as well.
\<close>

theorem username_only_page_counts_as_complete:
  "snd (findBestInputs exampleLower (pg_document usernameOnlyPage)) = Some userField
   \<and> snd (pageContext exampleLower AUTO_SUBMIT_DEFAULT (Some exampleCreds) [Tick usernameOnlyPage])
       = [SetVal 1 ''alice'', SetVal 1 ''s3cr3t'', Send ClearCreds]
   \<and> \<not> armed (fst (pageContext exampleLower AUTO_SUBMIT_DEFAULT (Some exampleCreds) [Tick usernameOnlyPage]))
   \<and> snd (tryAutofillNormal exampleLower exampleCreds [Tick usernameOnlyPage])
       = [SetVal 1 ''alice'', SetVal 1 ''s3cr3t'', Click 9, Send ClearCreds]"
  by code_simp

section \<open>OriginCooldownTracker\<close>

lemma markOriginFailure_sets:
  assumes "sender_tabId from = Some tab" "tab \<noteq> 0"
    and "originOf URL (orEmpty (sender_url from)) = origin" "origin \<noteq> []"
  shows "failUntilByOrigin (fst (onMessage URL t0 MarkOriginFailure from bg)) origin
           = Some (t0 + 10 * 60 * 1000)"
  using assms by (simp add: onMessage_def Let_def SUBMIT_COOLDOWN_MS_def)

lemma onClicked_cooling:
  assumes "failUntilByOrigin bg origin = Some until" "now < until"
    and "parseColonLink URL (clickedRaw info tabId bg) = Some parsed"
    and "originOf URL (link_url parsed) = origin"
  shows "snd (onClicked URL now info tabId newTab bg)
           = [if menuItemId info = ''cl-open-incog'' \<or> menuItemId info = ''cl-open-incog-2step''
              then WindowsCreateIncognito (link_url parsed) else TabsCreate (link_url parsed)]"
    and "credsByTab (fst (onClicked URL now info tabId newTab bg)) = credsByTab bg"
    and "failUntilByOrigin (fst (onClicked URL now info tabId newTab bg)) = failUntilByOrigin bg"
proof -
  define bg1 where "bg1 = (if truthyStr (cachedHref tabId bg)
                 then (case tabId of
                         None \<Rightarrow> bg
                       | Some t \<Rightarrow> bg\<lparr>rawHrefPerTab := (rawHrefPerTab bg)(t := None)\<rparr>)
                 else bg)"
  have same: "failUntilByOrigin bg1 = failUntilByOrigin bg" "credsByTab bg1 = credsByTab bg"
    by (simp_all add: bg1_def split: option.splits)
  have "onClicked URL now info tabId newTab bg
      = (bg1, [if menuItemId info = ''cl-open-incog'' \<or> menuItemId info = ''cl-open-incog-2step''
              then WindowsCreateIncognito (link_url parsed) else TabsCreate (link_url parsed)])"
    unfolding onClicked_def Let_def bg1_def [symmetric]
    using assms same by simp
  then show "snd (onClicked URL now info tabId newTab bg)
           = [if menuItemId info = ''cl-open-incog'' \<or> menuItemId info = ''cl-open-incog-2step''
              then WindowsCreateIncognito (link_url parsed) else TabsCreate (link_url parsed)]"
    and "credsByTab (fst (onClicked URL now info tabId newTab bg)) = credsByTab bg"
    and "failUntilByOrigin (fst (onClicked URL now info tabId newTab bg)) = failUntilByOrigin bg"
    using same by simp_all
qed

lemma unarmed_context_is_idle:
  "snd (pageContext lower auto None ts) = [] \<and> \<not> armed (fst (pageContext lower auto None ts))"
proof -
  have quiet: "snd (run lower cs ts) = [] \<and> \<not> armed (fst (run lower cs ts))" if "\<not> armed cs" for cs
    using that
  proof (induction ts arbitrary: cs)
    case Nil
    then show ?case by simp
  next
    case (Cons t ts)
    from step_disarmed [OF Cons.prems, of lower t] Cons.IH [of "fst (step lower cs t)"]
    show ?case by (simp add: split_beta)
  qed
  have "\<not> armed (requestCreds None (initialContent auto))"
    by (simp add: requestCreds_def initialContent_def)
  then show ?thesis
    unfolding pageContext_def by (rule quiet)
qed

text \<open>
  Claim C5.  \<open>markOriginFailure\<close> from a tab with a truthy id and an address that has
  an origin sets the cooldown of that origin to ten minutes from now, whatever it was before.
  While an origin is cooling, a click on a menu entry for a colon-link of that origin opens
  the address, in a tab or in an incognito window, and arms nothing; the new tab then gets no
  credentials from \<open>requestCreds\<close>, and a page context without credentials has no effect
  at all.
\<close>

theorem cooldown_blocks_arming:
  assumes "sender_tabId from = Some tab" "tab \<noteq> 0"
    and "originOf URL (orEmpty (sender_url from)) = origin" "origin \<noteq> []"
    and "failUntilByOrigin bg1 origin = Some until" "now < until"
    and "parseColonLink URL (clickedRaw info tabId bg1) = Some parsed"
    and "originOf URL (link_url parsed) = origin"
    and "credsByTab bg1 newTab = None" "newTab \<noteq> 0"
  shows "failUntilByOrigin (fst (onMessage URL t0 MarkOriginFailure from bg)) origin
           = Some (t0 + 10 * 60 * 1000)
     \<and> snd (onClicked URL now info tabId (Some newTab) bg1)
           = [if menuItemId info = ''cl-open-incog'' \<or> menuItemId info = ''cl-open-incog-2step''
              then WindowsCreateIncognito (link_url parsed) else TabsCreate (link_url parsed)]
     \<and> credsByTab (fst (onClicked URL now info tabId (Some newTab) bg1)) = credsByTab bg1
     \<and> snd (onMessage URL now' RequestCreds \<lparr>sender_tabId = Some newTab, sender_url = Some (link_url parsed)\<rparr>
               (fst (onClicked URL now info tabId (Some newTab) bg1))) = Some None
     \<and> snd (pageContext lower auto None ts) = []"
proof (intro conjI)
  show "failUntilByOrigin (fst (onMessage URL t0 MarkOriginFailure from bg)) origin
           = Some (t0 + 10 * 60 * 1000)"
    by (rule markOriginFailure_sets [OF assms(1-4)])
  note click = onClicked_cooling [OF assms(5-8), of "Some newTab"]
  show "snd (onClicked URL now info tabId (Some newTab) bg1)
           = [if menuItemId info = ''cl-open-incog'' \<or> menuItemId info = ''cl-open-incog-2step''
              then WindowsCreateIncognito (link_url parsed) else TabsCreate (link_url parsed)]"
    by (rule click(1))
  show unarmed: "credsByTab (fst (onClicked URL now info tabId (Some newTab) bg1)) = credsByTab bg1"
    by (rule click(2))
  show "snd (onMessage URL now' RequestCreds \<lparr>sender_tabId = Some newTab, sender_url = Some (link_url parsed)\<rparr>
               (fst (onClicked URL now info tabId (Some newTab) bg1))) = Some None"
    using assms(9,10) by (simp add: onMessage_def unarmed)
  show "snd (pageContext lower auto None ts) = []"
    using unarmed_context_is_idle by blast
qed

theorem cooldown_blocks_arming_witness:
  "failUntilByOrigin (fst (onMessage exampleURL 2000 MarkOriginFailure exampleSender exampleCoordinator))
     ''https://shop.test'' = Some 602000
   \<and> snd (onClicked exampleURL 5000 exampleClick (Some 5) (Some 6)
            (fst (onMessage exampleURL 2000 MarkOriginFailure exampleSender exampleCoordinator)))
       = [TabsCreate ''https://shop.test/login'']
   \<and> credsByTab (fst (onClicked exampleURL 5000 exampleClick (Some 5) (Some 6)
            (fst (onMessage exampleURL 2000 MarkOriginFailure exampleSender exampleCoordinator)))) 6
       = None
   \<and> credsByTab (fst (onClicked exampleURL 602000 exampleClick (Some 5) (Some 6)
            (fst (onMessage exampleURL 2000 MarkOriginFailure exampleSender exampleCoordinator)))) 6
       = Some \<lparr>creds_u = ''bob@x.com'', creds_p = ''p@ss'', creds_twoStep = False,
                creds_stage = ''init''\<rparr>"
proof -
  define bg1 where
    "bg1 = fst (onMessage exampleURL 2000 MarkOriginFailure exampleSender exampleCoordinator)"
  define parsed where
    "parsed = \<lparr>link_url = ''https://shop.test/login'', link_u = ''bob@x.com'', link_p = ''p@ss''\<rparr>"
  have sender: "sender_tabId exampleSender = Some 5" "(5::nat) \<noteq> 0"
    "originOf exampleURL (orEmpty (sender_url exampleSender)) = ''https://shop.test''"
    "''https://shop.test'' \<noteq> []"
    unfolding exampleURL_def by code_simp+
  have cooling: "failUntilByOrigin bg1 ''https://shop.test'' = Some 602000" "(5000::int) < 602000"
    unfolding bg1_def exampleURL_def by code_simp+
  have link: "parseColonLink exampleURL (clickedRaw exampleClick (Some 5) bg1) = Some parsed"
    "originOf exampleURL (link_url parsed) = ''https://shop.test''"
    unfolding bg1_def parsed_def exampleURL_def by code_simp+
  have fresh: "credsByTab bg1 6 = None" "(6::nat) \<noteq> 0"
    unfolding bg1_def exampleURL_def by code_simp+
  have later: "credsByTab (fst (onClicked exampleURL 602000 exampleClick (Some 5) (Some 6) bg1)) 6
       = Some \<lparr>creds_u = ''bob@x.com'', creds_p = ''p@ss'', creds_twoStep = False,
                creds_stage = ''init''\<rparr>"
    unfolding bg1_def exampleURL_def by code_simp
  have menu: "menuItemId exampleClick = ''cl-open''" "link_url parsed = ''https://shop.test/login''"
    by (simp_all add: exampleClick_def parsed_def)
  from cooldown_blocks_arming [OF sender cooling link fresh, of 2000 exampleCoordinator]
    fresh(1) later
  show ?thesis
    unfolding bg1_def [symmetric] by (simp add: menu)
qed

section \<open>FieldScorer: the form of the password field\<close>

text \<open>
  With scores that are never negative, a scoring loop started from \<open>-1\<close> returns the
  first element with the highest score and that score.
\<close>

lemma scoreUsernameInput_nonneg: "0 \<le> scoreUsernameInput lower el"
  by (simp add: scoreUsernameInput_def Let_def)

lemma scorePasswordInput_nonneg: "0 \<le> scorePasswordInput lower el"
  by (simp add: scorePasswordInput_def Let_def)

lemma firstBest_greater:
  assumes "score b < score e"
  shows "firstBest score (b # e # els) = firstBest score (e # els)"
proof -
  have "List.find (\<lambda>c. list_all (\<lambda>x. score x \<le> score c) (b # e # els)) (e # els)
      = List.find (\<lambda>c. list_all (\<lambda>x. score x \<le> score c) (e # els)) (e # els)"
    using assms by (intro find_cong) (auto simp: list_all_iff)
  then show ?thesis
    using assms by (simp add: firstBest_def)
qed

lemma firstBest_not_greater:
  assumes "score e \<le> score b"
  shows "firstBest score (b # e # els) = firstBest score (b # els)"
proof (cases "list_all (\<lambda>x. score x \<le> score b) els")
  case True
  with assms show ?thesis by (simp add: firstBest_def)
next
  case False
  have skip: "\<not> list_all (\<lambda>x. score x \<le> score e) (b # e # els)"
    using False assms by (auto simp: list_all_iff)
  have "List.find (\<lambda>c. list_all (\<lambda>x. score x \<le> score c) (b # e # els)) els
      = List.find (\<lambda>c. list_all (\<lambda>x. score x \<le> score c) (b # els)) els"
    using assms by (intro find_cong) (auto simp: list_all_iff)
  with False skip show ?thesis
    by (auto simp: firstBest_def)
qed

lemma bestLoop_from:
  "bestLoop score els (Some b) (score b)
     = (firstBest score (b # els), score (the (firstBest score (b # els))))"
proof (induction els arbitrary: b)
  case Nil
  then show ?case by (simp add: firstBest_def)
next
  case (Cons e els)
  show ?case
  proof (cases "score b < score e")
    case True
    then show ?thesis
      using Cons.IH [of e] firstBest_greater [of score b e els] by simp
  next
    case False
    then show ?thesis
      using Cons.IH [of b] firstBest_not_greater [of score e b els] by simp
  qed
qed

lemma firstBest_exists:
  assumes "els \<noteq> []"
  shows "\<exists>m. firstBest score els = Some m"
proof -
  from assms have "Max (score ` set els) \<in> score ` set els"
    by (intro Max_in) auto
  then obtain m where m: "m \<in> set els" "score m = Max (score ` set els)"
    by auto
  then have "list_all (\<lambda>x. score x \<le> score m) els"
    by (auto simp: list_all_iff)
  with m(1) have "List.find (\<lambda>e. list_all (\<lambda>x. score x \<le> score e) els) els \<noteq> None"
    by (auto simp: find_None_iff)
  then show ?thesis
    by (auto simp: firstBest_def)
qed

lemma bestLoop_firstBest:
  assumes "\<And>el. 0 \<le> score el"
  shows "fst (bestLoop score els None (- 1)) = firstBest score els"
    and "firstBest score els = Some m \<Longrightarrow> snd (bestLoop score els None (- 1)) = score m"
proof -
  have both: "bestLoop score els None (- 1)
      = (firstBest score els, case firstBest score els of None \<Rightarrow> - 1 | Some m \<Rightarrow> score m)"
  proof (cases els)
    case Nil
    then show ?thesis by (simp add: firstBest_def)
  next
    case (Cons e es)
    obtain m where "firstBest score (e # es) = Some m"
      using firstBest_exists [of "e # es" score] by auto
    moreover have "- 1 < score e"
      using assms [of e] by simp
    ultimately show ?thesis
      using Cons bestLoop_from [of score es e] by simp
  qed
  show "fst (bestLoop score els None (- 1)) = firstBest score els"
    by (simp add: both)
  show "snd (bestLoop score els None (- 1)) = score m" if "firstBest score els = Some m"
    using that by (simp add: both)
qed

text \<open>
  Claim C8, as amended.  In \<open>content.js\<close>, when the best user field and the best
  password field of a root have different form owners, the scorer takes the first
  best-scoring input within the form of the password field among those of type \<open>email\<close>
  or \<open>text\<close> or without a type, and puts it in the place of the best user field exactly
  when there is one and its score is at least \<open>max 3 (userScore - 2)\<close>; the password
  field is not affected.  \<open>findBestInputs\<close> of the script with the governor has no such
  step and returns the first best element for each role.  The scores are those of the
  source, with the lower-casing of the host, whatever its case table.
\<close>

theorem same_form_preference:
  assumes "firstBest (scorePasswordInput lower) inputs = Some pb"
    and "firstBest (scoreUsernameInput lower) inputs = Some ub"
    and "el_form pb = Some pf" "el_form ub = Some uf" "pf \<noteq> uf"
  shows "findBestInputs_content lower inputs =
     (case firstBest (scoreUsernameInput lower) (candidates pf inputs) of
        None \<Rightarrow> Some ub
      | Some c \<Rightarrow>
          if max 3 (scoreUsernameInput lower ub - 2) \<le> scoreUsernameInput lower c then Some c else Some ub,
      Some pb)
   \<and> findBestInputs lower inputs = (firstBest (userScoreOf lower) inputs, firstBest (passScoreOf lower) inputs)"
proof
  have pass: "bestLoop (scorePasswordInput lower) inputs None (- 1) = (Some pb, scorePasswordInput lower pb)"
    using bestLoop_firstBest(1) [where score = "scorePasswordInput lower" and els = inputs, OF scorePasswordInput_nonneg]
      bestLoop_firstBest(2) [where score = "scorePasswordInput lower", OF scorePasswordInput_nonneg assms(1)] assms(1)
    by (simp add: prod_eq_iff)
  have user: "bestLoop (scoreUsernameInput lower) inputs None (- 1) = (Some ub, scoreUsernameInput lower ub)"
    using bestLoop_firstBest(1) [where score = "scoreUsernameInput lower" and els = inputs, OF scoreUsernameInput_nonneg]
      bestLoop_firstBest(2) [where score = "scoreUsernameInput lower", OF scoreUsernameInput_nonneg assms(2)] assms(2)
    by (simp add: prod_eq_iff)
  show "findBestInputs_content lower inputs =
     (case firstBest (scoreUsernameInput lower) (candidates pf inputs) of
        None \<Rightarrow> Some ub
      | Some c \<Rightarrow>
          if max 3 (scoreUsernameInput lower ub - 2) \<le> scoreUsernameInput lower c then Some c else Some ub,
      Some pb)"
  proof (cases "firstBest (scoreUsernameInput lower) (candidates pf inputs)")
    case None
    then obtain bestScore where
      "bestLoop (scoreUsernameInput lower) (candidates pf inputs) None (- 1) = (None, bestScore)"
      using bestLoop_firstBest(1) [where score = "scoreUsernameInput lower" and els = "candidates pf inputs", OF scoreUsernameInput_nonneg]
      by (cases "bestLoop (scoreUsernameInput lower) (candidates pf inputs) None (- 1)") simp
    with None assms(3-5) show ?thesis
      by (simp add: findBestInputs_content_def pass user)
  next
    case (Some c)
    then have "bestLoop (scoreUsernameInput lower) (candidates pf inputs) None (- 1)
        = (Some c, scoreUsernameInput lower c)"
      using bestLoop_firstBest(1) [where score = "scoreUsernameInput lower" and els = "candidates pf inputs", OF scoreUsernameInput_nonneg]
        bestLoop_firstBest(2) [where score = "scoreUsernameInput lower", OF scoreUsernameInput_nonneg Some]
      by (simp add: prod_eq_iff)
    with Some assms(3-5) show ?thesis
      by (simp add: findBestInputs_content_def pass user)
  qed
  show "findBestInputs lower inputs = (firstBest (userScoreOf lower) inputs, firstBest (passScoreOf lower) inputs)"
    using bestLoop_firstBest(1) [where score = "userScoreOf lower" and els = inputs, OF userScoreOf_nonneg]
      bestLoop_firstBest(1) [where score = "passScoreOf lower" and els = inputs, OF passScoreOf_nonneg]
    by (simp add: findBestInputs_def)
qed

text \<open>
  The witness: the e-mail field of the login form replaces the better-scoring telephone field
  of the other form; in a root with one e-mail field and one password field in another
  form, that form holds no candidate and the e-mail field is kept; the labelled text field
  of the login form replaces the e-mail field of the newsletter, which is of a searched type
  and scores higher but lies in the other form; and the field named in Portuguese capitals
  scores \<open>12\<close> and is kept, the only candidate of the login form scoring \<open>5\<close>.
\<close>

theorem same_form_preference_witness:
  "scoreUsernameInput exampleLower otherField = 12 \<and> scoreUsernameInput exampleLower emailField = 11
   \<and> findBestInputs_content exampleLower [otherField, passField, emailField] = (Some emailField, Some passField)
   \<and> findBestInputs_content exampleLower [emailField, passField\<lparr>el_form := Some 8, el_within := [8]\<rparr>]
       = (Some emailField, Some (passField\<lparr>el_form := Some 8, el_within := [8]\<rparr>))
   \<and> textLike newsletterField \<and> scoreUsernameInput exampleLower newsletterField = 11
   \<and> scoreUsernameInput exampleLower labelledField = 10
   \<and> candidates 7 [newsletterField, passField, labelledField] = [labelledField]
   \<and> findBestInputs_content exampleLower [newsletterField, passField, labelledField]
       = (Some labelledField, Some passField)
   \<and> scoreUsernameInput exampleLower usuarioField = 12
   \<and> scoreUsernameInput exampleLower shortField = 5
   \<and> findBestInputs_content exampleLower [usuarioField, passField, shortField]
       = (Some usuarioField, Some passField)"
proof -
  have h: "firstBest (scorePasswordInput exampleLower) [otherField, passField, emailField] = Some passField"
    "firstBest (scoreUsernameInput exampleLower) [otherField, passField, emailField] = Some otherField"
    "el_form passField = Some 7" "el_form otherField = Some 8" "(7::nat) \<noteq> 8"
    by code_simp+
  have c: "firstBest (scoreUsernameInput exampleLower) (candidates 7 [otherField, passField, emailField])
      = Some emailField"
    "scoreUsernameInput exampleLower otherField = 12" "scoreUsernameInput exampleLower emailField = 11"
    by code_simp+
  have h': "firstBest (scorePasswordInput exampleLower) [emailField, passField\<lparr>el_form := Some 8, el_within := [8]\<rparr>]
      = Some (passField\<lparr>el_form := Some 8, el_within := [8]\<rparr>)"
    "firstBest (scoreUsernameInput exampleLower) [emailField, passField\<lparr>el_form := Some 8, el_within := [8]\<rparr>]
      = Some emailField"
    "el_form (passField\<lparr>el_form := Some 8, el_within := [8]\<rparr>) = Some 8"
    "el_form emailField = Some 7" "(8::nat) \<noteq> 7"
    by code_simp+
  have c': "firstBest (scoreUsernameInput exampleLower)
              (candidates 8 [emailField, passField\<lparr>el_form := Some 8, el_within := [8]\<rparr>]) = None"
    by code_simp
  have n: "firstBest (scorePasswordInput exampleLower) [newsletterField, passField, labelledField]
      = Some passField"
    "firstBest (scoreUsernameInput exampleLower) [newsletterField, passField, labelledField]
      = Some newsletterField"
    "el_form passField = Some 7" "el_form newsletterField = Some 8" "(7::nat) \<noteq> 8"
    by code_simp+
  have cn: "candidates 7 [newsletterField, passField, labelledField] = [labelledField]"
    "firstBest (scoreUsernameInput exampleLower) [labelledField] = Some labelledField"
    "textLike newsletterField" "scoreUsernameInput exampleLower newsletterField = 11"
    "scoreUsernameInput exampleLower labelledField = 10"
    by code_simp+
  have u: "firstBest (scorePasswordInput exampleLower) [usuarioField, passField, shortField]
      = Some passField"
    "firstBest (scoreUsernameInput exampleLower) [usuarioField, passField, shortField]
      = Some usuarioField"
    "el_form passField = Some 7" "el_form usuarioField = Some 8" "(7::nat) \<noteq> 8"
    by code_simp+
  have cu: "firstBest (scoreUsernameInput exampleLower)
              (candidates 7 [usuarioField, passField, shortField]) = Some shortField"
    "scoreUsernameInput exampleLower usuarioField = 12"
    "scoreUsernameInput exampleLower shortField = 5"
    by code_simp+
  have one: "findBestInputs_content exampleLower [otherField, passField, emailField]
      = (Some emailField, Some passField)"
    using same_form_preference [OF h] c by simp
  have two: "findBestInputs_content exampleLower
               [emailField, passField\<lparr>el_form := Some 8, el_within := [8]\<rparr>]
      = (Some emailField, Some (passField\<lparr>el_form := Some 8, el_within := [8]\<rparr>))"
    using same_form_preference [OF h'] c' by simp
  have three: "findBestInputs_content exampleLower [newsletterField, passField, labelledField]
      = (Some labelledField, Some passField)"
    using same_form_preference [OF n] cn by simp
  have four: "findBestInputs_content exampleLower [usuarioField, passField, shortField]
      = (Some usuarioField, Some passField)"
    using same_form_preference [OF u] cu by simp
  from one two three four c(2,3) cn(1,3,4,5) cu(2,3)
  show ?thesis by simp
qed

text \<open>
  The claim as stated fails twice.  In \<open>content.js\<close> a candidate whose score equals the
  best score, but is below \<open>3\<close>, does not replace the best user field of the other form.
  In the script with the governor the e-mail field of the login form, one point below the
  best, is not chosen, as that scorer never looks at forms.
\<close>

theorem same_form_preference_has_a_floor:
  "el_form passField = el_form plainField \<and> el_form searchField \<noteq> el_form passField
   \<and> scoreUsernameInput exampleLower plainField = scoreUsernameInput exampleLower searchField
   \<and> fst (findBestInputs_content exampleLower [searchField, passField, plainField]) = Some searchField
   \<and> userScoreOf exampleLower otherField = 12 \<and> userScoreOf exampleLower emailField = 11
   \<and> el_form passField = el_form emailField \<and> el_form otherField \<noteq> el_form passField
   \<and> fst (findBestInputs exampleLower [otherField, passField, emailField]) = Some otherField"
  by code_simp

end
